theory Spec2Isabelle
  imports Complex_Main "HOL-Library.Sublist"
begin

section \<open>Errors and arrays\<close>

text \<open>
  The Python code raises exceptions; the model returns them as values.
  \<open>CvError\<close> stands for \<^verbatim>\<open>cv2.error\<close>, the others for the Python
  exceptions of the same name.
\<close>

datatype error = CvError | IndexError | ValueError | ZeroDivisionError | TypeError

text \<open>
  A frame is a \<^verbatim>\<open>numpy\<close> array of shape \<open>(rows, cols, chans)\<close>; \<open>pix\<close> holds
  its entries in row-major order. Arithmetic is over the reals: the rounding of
  \<^verbatim>\<open>float32\<close> is not part of the model.
\<close>

record frame =
  rows :: nat
  cols :: nat
  chans :: nat
  pix :: "real list"

definition wf_frame :: "frame \<Rightarrow> bool" where
  "wf_frame f = (length (pix f) = rows f * cols f * chans f)"

definition same_shape :: "frame \<Rightarrow> frame \<Rightarrow> bool" where
  "same_shape a b = (rows a = rows b \<and> cols a = cols b \<and> chans a = chans b)"

section \<open>The OpenCV calls of \<^verbatim>\<open>pyramid_utils.py\<close>\<close>

text \<open>
  \<^verbatim>\<open>cv2.pyrDown(image)\<close> without \<^verbatim>\<open>dstsize\<close>: the result has
  \<open>(cols + 1) div 2\<close> columns and \<open>(rows + 1) div 2\<close> rows and the channels of the
  source; an empty source is rejected. The blurred and decimated values are
  the library's business: they enter as the parameter \<open>down\<close>, which gives
  the value at each flat index of the result.
\<close>

type_synonym down_kernel = "frame \<Rightarrow> nat \<Rightarrow> real"

definition pyrDown :: "down_kernel \<Rightarrow> frame \<Rightarrow> error + frame" where
  "pyrDown down src =
     (if rows src = 0 \<or> cols src = 0 then Inl CvError
      else
        let r = (rows src + 1) div 2;
            c = (cols src + 1) div 2
        in Inr \<lparr>rows = r, cols = c, chans = chans src,
                pix = map (down src) [0..<r * c * chans src]\<rparr>)"

text \<open>
  \<^verbatim>\<open>cv2.pyrUp(src, dstsize=(w, h))\<close>: the requested size must differ from twice
  the source size by at most \<open>w mod 2\<close> (resp. \<open>h mod 2\<close>); the result has exactly
  the requested size. The interpolated values are again a parameter.
\<close>

type_synonym up_kernel = "frame \<Rightarrow> nat \<times> nat \<Rightarrow> nat \<Rightarrow> real"

definition pyrUp :: "up_kernel \<Rightarrow> frame \<Rightarrow> nat \<times> nat \<Rightarrow> error + frame" where
  "pyrUp up src dstsize =
     (case dstsize of (w, h) \<Rightarrow>
        if rows src = 0 \<or> cols src = 0
           \<or> \<bar>int w - 2 * int (cols src)\<bar> > int (w mod 2)
           \<or> \<bar>int h - 2 * int (rows src)\<bar> > int (h mod 2)
        then Inl CvError
        else Inr \<lparr>rows = h, cols = w, chans = chans src,
                  pix = map (up src dstsize) [0..<h * w * chans src]\<rparr>)"

text \<open>
  \<^verbatim>\<open>cv2.subtract\<close> and \<^verbatim>\<open>cv2.add\<close> on two arrays of one shape work entry by
  entry (no saturation on floating-point data); arrays of different shapes
  are rejected.
\<close>

definition cv_subtract :: "frame \<Rightarrow> frame \<Rightarrow> error + frame" where
  "cv_subtract a b =
     (if same_shape a b then Inr (a\<lparr>pix := map2 (-) (pix a) (pix b)\<rparr>)
      else Inl CvError)"

definition cv_add :: "frame \<Rightarrow> frame \<Rightarrow> error + frame" where
  "cv_add a b =
     (if same_shape a b then Inr (a\<lparr>pix := map2 (+) (pix a) (pix b)\<rparr>)
      else Inl CvError)"

section \<open>\<^verbatim>\<open>pyramid_utils.py\<close>\<close>

text \<open>
  \<^verbatim>\<open>build_gaussian_pyramid\<close>: the loop \<^verbatim>\<open>for _ in range(levels - 1)\<close> runs
  \<open>nat (levels - 1)\<close> times (not at all when \<open>levels \<le> 1\<close>), each time replacing
  \<^verbatim>\<open>image\<close> by its \<^verbatim>\<open>pyrDown\<close> and appending it.
\<close>

fun gaussian_loop :: "down_kernel \<Rightarrow> nat \<Rightarrow> frame \<Rightarrow> error + frame list" where
  "gaussian_loop down 0 img = Inr []"
| "gaussian_loop down (Suc n) img =
     (case pyrDown down img of
        Inl e \<Rightarrow> Inl e
      | Inr img' \<Rightarrow>
          (case gaussian_loop down n img' of
             Inl e \<Rightarrow> Inl e
           | Inr rest \<Rightarrow> Inr (img' # rest)))"

definition build_gaussian_pyramid :: "down_kernel \<Rightarrow> frame \<Rightarrow> int \<Rightarrow> error + frame list" where
  "build_gaussian_pyramid down img levels =
     (case gaussian_loop down (nat (levels - 1)) img of
        Inl e \<Rightarrow> Inl e
      | Inr rest \<Rightarrow> Inr (img # rest))"

text \<open>
  \<^verbatim>\<open>build_laplacian_pyramid\<close>: the Gaussian pyramid has \<open>nat (levels - 1) + 1\<close>
  entries, so the loop over \<^verbatim>\<open>i in range(levels - 1)\<close> visits every pair of
  neighbours \<open>g[i], g[i+1]\<close> of it, and the entry appended at the end,
  \<^verbatim>\<open>gaussian_pyramid[-1]\<close>, is the one left over. The recursion walks the list
  in that order.
\<close>

fun laplacian_loop :: "up_kernel \<Rightarrow> frame list \<Rightarrow> error + frame list" where
  "laplacian_loop up [] = Inl IndexError"
| "laplacian_loop up [g] = Inr [g]"
| "laplacian_loop up (g # g' # gs) =
     (case pyrUp up g' (cols g, rows g) of
        Inl e \<Rightarrow> Inl e
      | Inr upsampled \<Rightarrow>
          (case cv_subtract g upsampled of
             Inl e \<Rightarrow> Inl e
           | Inr laplacian \<Rightarrow>
               (case laplacian_loop up (g' # gs) of
                  Inl e \<Rightarrow> Inl e
                | Inr rest \<Rightarrow> Inr (laplacian # rest))))"

definition build_laplacian_pyramid ::
  "down_kernel \<Rightarrow> up_kernel \<Rightarrow> frame \<Rightarrow> int \<Rightarrow> error + frame list" where
  "build_laplacian_pyramid down up img levels =
     (case build_gaussian_pyramid down img levels of
        Inl e \<Rightarrow> Inl e
      | Inr gaussian_pyramid \<Rightarrow> laplacian_loop up gaussian_pyramid)"

text \<open>
  \<^verbatim>\<open>reconstruct_from_laplacian_pyramid\<close>: \<^verbatim>\<open>image\<close> starts as the last entry
  (\<^verbatim>\<open>pyramid[-1]\<close>, an \<^verbatim>\<open>IndexError\<close> on the empty list) and the loop visits
  the other entries from index \<open>len - 2\<close> down to \<open>0\<close>: the tail of the reversed
  list. \<^verbatim>\<open>astype(np.float32)\<close> changes nothing over the reals.
\<close>

fun reconstruct_loop :: "up_kernel \<Rightarrow> frame list \<Rightarrow> frame \<Rightarrow> error + frame" where
  "reconstruct_loop up [] img = Inr img"
| "reconstruct_loop up (level # finer) img =
     (case pyrUp up img (cols level, rows level) of
        Inl e \<Rightarrow> Inl e
      | Inr upsampled \<Rightarrow>
          (case cv_add upsampled level of
             Inl e \<Rightarrow> Inl e
           | Inr img' \<Rightarrow> reconstruct_loop up finer img'))"

definition reconstruct_from_laplacian_pyramid :: "up_kernel \<Rightarrow> frame list \<Rightarrow> error + frame" where
  "reconstruct_from_laplacian_pyramid up pyramid =
     (case rev pyramid of
        [] \<Rightarrow> Inl IndexError
      | img # finer \<Rightarrow> reconstruct_loop up finer img)"

section \<open>Temporal volumes and the \<^verbatim>\<open>numpy\<close> calls of \<^verbatim>\<open>evm.py\<close>\<close>

text \<open>
  A temporal volume is an array of shape \<open>(numFrames, vrows, vcols, vchans)\<close>:
  \<open>slices\<close> lists the time slices in order, each one flattened like the pixels
  of a frame. The element type is a parameter: the transformed data is an
  array of the same layout over the complex numbers.
\<close>

record 'a volume =
  vrows :: nat
  vcols :: nat
  vchans :: nat
  slices :: "'a list list"

definition width :: "'a volume \<Rightarrow> nat" where
  "width v = vrows v * vcols v * vchans v"

definition wf_volume :: "'a volume \<Rightarrow> bool" where
  "wf_volume v = list_all (\<lambda>s. length s = width v) (slices v)"

text \<open>
  The one-dimensional transforms, as \<^verbatim>\<open>numpy.fft\<close> defines them:
  \<open>A\<^sub>k = \<Sum>\<^sub>m a\<^sub>m exp (- 2 \<pi> i m k / n)\<close> and
  \<open>a\<^sub>m = (1 / n) \<Sum>\<^sub>k A\<^sub>k exp (2 \<pi> i m k / n)\<close>.
\<close>

definition np_fft :: "complex list \<Rightarrow> complex list" where
  "np_fft a =
     (let n = length a
      in map (\<lambda>k. \<Sum>m\<leftarrow>[0..<n]. a ! m * cis (- (2 * pi * real m * real k / real n))) [0..<n])"

definition np_ifft :: "complex list \<Rightarrow> complex list" where
  "np_ifft A =
     (let n = length A
      in map (\<lambda>m. (\<Sum>k\<leftarrow>[0..<n]. A ! k * cis (2 * pi * real m * real k / real n)) / of_nat n)
           [0..<n])"

text \<open>
  A transform with \<^verbatim>\<open>axis=0\<close> works on each series along the time axis, that
  is on each column of the list of slices, and puts the results back in the
  same layout. The slices of an array all have \<open>w\<close> entries.
\<close>

definition column :: "'a list list \<Rightarrow> nat \<Rightarrow> 'a list" where
  "column m p = map (\<lambda>s. s ! p) m"

definition along_axis0 :: "('a list \<Rightarrow> 'b list) \<Rightarrow> nat \<Rightarrow> 'a list list \<Rightarrow> 'b list list" where
  "along_axis0 f w m =
     (let series = map (\<lambda>p. f (column m p)) [0..<w]
      in map (\<lambda>t. map (\<lambda>s. s ! t) series) [0..<length m])"

text \<open>
  The values of the arrays are reals throughout, but which bins the filter
  keeps is decided by comparing frequencies that \<^verbatim>\<open>numpy\<close> computes in double
  precision, and such a comparison can go the other way when its operand is
  rounded. So the arithmetic of the frequencies is modelled with its rounding:
  \<open>float64 x\<close> is the double nearest to \<open>x\<close>, a multiple of \<open>2 ^ e\<close> with a
  mantissa of 53 bits, a tie going to the even mantissa. The exponent is not
  bounded: \<open>float64\<close> is the rounding of the doubles wherever the result is
  in their normal range, from \<open>2\<^sup>-\<^sup>1\<^sup>0\<^sup>2\<^sup>2\<close> up to \<open>2\<^sup>1\<^sup>0\<^sup>2\<^sup>4\<close>, and every step on the
  way to the frequencies is there for a frame rate between \<open>2\<^sup>-\<^sup>5\<^sup>0\<^sup>0\<close> and
  \<open>2\<^sup>5\<^sup>0\<^sup>0\<close> and at most \<open>2\<^sup>5\<^sup>3\<close> frames (an integer up to \<open>2\<^sup>5\<^sup>3\<close> is a double).
\<close>

definition round_half_even :: "real \<Rightarrow> int" where
  "round_half_even y =
     (let f = \<lfloor>y\<rfloor>
      in if y - of_int f < 1 / 2 then f
         else if y - of_int f > 1 / 2 then f + 1
         else if even f then f else f + 1)"

definition float64 :: "real \<Rightarrow> real" where
  "float64 x =
     (if x = 0 then 0
      else
        let e = \<lfloor>log 2 \<bar>x\<bar>\<rfloor> - 52
        in of_int (round_half_even (x / 2 powr of_int e)) * 2 powr of_int e)"

text \<open>
  \<^verbatim>\<open>np.fft.fftfreq(n, d)\<close> computes \<^verbatim>\<open>val = 1.0 / (n * d)\<close>, fills an integer
  array with \<open>0, \<dots>, (n - 1) div 2\<close> followed by \<open>- (n div 2), \<dots>, - 1\<close>, and
  returns that array times \<^verbatim>\<open>val\<close>: one rounding for the product \<open>n * d\<close>, one
  for the quotient, one for each entry.
\<close>

definition fftfreq :: "nat \<Rightarrow> real \<Rightarrow> real list" where
  "fftfreq n d =
     (let val = float64 (1 / float64 (real n * d));
          N = (n - 1) div 2 + 1
      in map (\<lambda>i. float64 (real_of_int i * val)) (map int [0..<N] @ [- int (n div 2)..- 1]))"

section \<open>\<^verbatim>\<open>temporal_bandpass_filter\<close>\<close>

text \<open>
  The function is modelled for \<^verbatim>\<open>axis=0\<close>, the default and the value at its
  only call; the two \<^verbatim>\<open>print\<close> statements are left out.
  \<^verbatim>\<open>np.fft.fft\<close> raises \<^verbatim>\<open>ValueError\<close> on an axis without data points, and
  \<^verbatim>\<open>1.0/fps\<close> raises \<^verbatim>\<open>ZeroDivisionError\<close> when \<open>fps\<close> is zero; the function
  has no other check. The quotient \<^verbatim>\<open>1.0/fps\<close> is rounded like the other
  steps on the way to the frequencies. \<^verbatim>\<open>fft_data_filtered[~mask] = 0\<close> overwrites with zeros
  each bin (each slice of the transformed array) whose mask entry is false
  (\<open>freq_mask\<close> is the source's \<^verbatim>\<open>mask\<close>).
\<close>

definition apply_mask :: "bool list \<Rightarrow> complex list list \<Rightarrow> complex list list" where
  "apply_mask freq_mask fft_data =
     map2 (\<lambda>keep bin. if keep then bin else map (\<lambda>_. 0) bin) freq_mask fft_data"

definition temporal_bandpass_filter ::
  "real volume \<Rightarrow> real \<Rightarrow> real \<Rightarrow> real \<Rightarrow> error + real volume" where
  "temporal_bandpass_filter data fps low_freq high_freq =
     (let n = length (slices data)
      in if n = 0 then Inl ValueError
         else if fps = 0 then Inl ZeroDivisionError
         else
           let fft_data = along_axis0 np_fft (width data) (map (map complex_of_real) (slices data));
               frequencies = fftfreq n (float64 (1 / fps));
               freq_mask = map (\<lambda>f. \<bar>f\<bar> \<ge> low_freq \<and> \<bar>f\<bar> \<le> high_freq) frequencies;
               fft_data_filtered = apply_mask freq_mask fft_data;
               filtered_data = along_axis0 np_ifft (width data) fft_data_filtered
           in Inr (data\<lparr>slices := map (map Re) filtered_data\<rparr>))"

text \<open>
  The filter in the words of the specification, for comparison: each series
  is transformed on its own; bin \<open>j\<close> stands for the frequency \<open>j * fps / n\<close>,
  the bins above the Nyquist frequency for the negative frequencies
  \<open>(j - n) * fps / n\<close>; a bin is set to zero when the absolute value of its
  frequency is outside \<open>[lowFreqHz, highFreqHz]\<close>; the real part of the inverse
  transform is kept.
\<close>

definition spec_abs_frequency :: "nat \<Rightarrow> real \<Rightarrow> nat \<Rightarrow> real" where
  "spec_abs_frequency n fps j =
     \<bar>(if 2 * j \<le> n then real j else real j - real n) * fps / real n\<bar>"

definition spec_bandpass_series :: "real \<Rightarrow> real \<Rightarrow> real \<Rightarrow> real list \<Rightarrow> real list" where
  "spec_bandpass_series fps lowFreqHz highFreqHz x =
     (let n = length x;
          X = np_fft (map complex_of_real x);
          Y = map (\<lambda>j. if lowFreqHz \<le> spec_abs_frequency n fps j
                           \<and> spec_abs_frequency n fps j \<le> highFreqHz
                        then X ! j else 0) [0..<n]
      in map Re (np_ifft Y))"

definition spec_bandpass :: "real volume \<Rightarrow> real \<Rightarrow> real \<Rightarrow> real \<Rightarrow> real volume" where
  "spec_bandpass V fps lowFreqHz highFreqHz =
     V\<lparr>slices :=
         map (\<lambda>t. map (\<lambda>p. spec_bandpass_series fps lowFreqHz highFreqHz
                              (column (slices V) p) ! t) [0..<width V])
           [0..<length (slices V)]\<rparr>"

text \<open>
  The same description with the frequencies as they are computed: bin \<open>j\<close>
  stands for \<open>k * (1.0 / (n * (1.0 / fps)))\<close> with every operation rounded to
  double precision, where \<open>k\<close> is \<open>j\<close> for the bins below the Nyquist frequency
  and \<open>j - n\<close> for the others.
\<close>

definition computed_abs_frequency :: "nat \<Rightarrow> real \<Rightarrow> nat \<Rightarrow> real" where
  "computed_abs_frequency n fps j =
     \<bar>float64 ((if 2 * j < n then real j else real j - real n)
               * float64 (1 / float64 (real n * float64 (1 / fps))))\<bar>"

definition float_bandpass_series :: "real \<Rightarrow> real \<Rightarrow> real \<Rightarrow> real list \<Rightarrow> real list" where
  "float_bandpass_series fps lowFreqHz highFreqHz x =
     (let n = length x;
          X = np_fft (map complex_of_real x);
          Y = map (\<lambda>j. if lowFreqHz \<le> computed_abs_frequency n fps j
                           \<and> computed_abs_frequency n fps j \<le> highFreqHz
                        then X ! j else 0) [0..<n]
      in map Re (np_ifft Y))"

definition float_bandpass :: "real volume \<Rightarrow> real \<Rightarrow> real \<Rightarrow> real \<Rightarrow> real volume" where
  "float_bandpass V fps lowFreqHz highFreqHz =
     V\<lparr>slices :=
         map (\<lambda>t. map (\<lambda>p. float_bandpass_series fps lowFreqHz highFreqHz
                              (column (slices V) p) ! t) [0..<width V])
           [0..<length (slices V)]\<rparr>"

text \<open>
  A band is clear of the bins when no bin of \<open>n\<close> samples at \<open>fps\<close> has its
  exact frequency within the relative distance \<open>edge_margin\<close> of a band edge:
  each of the two comparisons then has the same outcome for every value
  within that distance of the exact frequency.
\<close>

definition edge_margin :: real where
  "edge_margin = 5 / 2 ^ 53"

definition clear_of_edges :: "nat \<Rightarrow> real \<Rightarrow> real \<Rightarrow> real \<Rightarrow> bool" where
  "clear_of_edges n fps lowFreqHz highFreqHz =
     list_all
       (\<lambda>j. (spec_abs_frequency n fps j * (1 + edge_margin) < lowFreqHz
               \<or> lowFreqHz \<le> spec_abs_frequency n fps j * (1 - edge_margin))
            \<and> (spec_abs_frequency n fps j * (1 + edge_margin) \<le> highFreqHz
               \<or> highFreqHz < spec_abs_frequency n fps j * (1 - edge_margin)))
       [0..<n]"

text \<open>Scaling every entry of a volume, and a volume that is the same at every time.\<close>

definition scale :: "real \<Rightarrow> real volume \<Rightarrow> real volume" where
  "scale c v = v\<lparr>slices := map (map (\<lambda>x. c * x)) (slices v)\<rparr>"

definition constant_in_time :: "'a volume \<Rightarrow> bool" where
  "constant_in_time v = list_all (\<lambda>s. s = hd (slices v)) (slices v)"

section \<open>\<^verbatim>\<open>eulerian_magnification\<close>, steps 3 to 5\<close>

text \<open>
  The steps work on \<^verbatim>\<open>pyramid_video_t\<close>, the list of the temporal volumes of
  the pyramid levels that step 2 has built (loading the video, building the
  volumes and saving the result are not modelled). Each loop of the source is
  a recursive function here, named after what the loop makes. Step 3 filters
  level \<open>level_idx\<close> when
  \<^verbatim>\<open>level_idx < pyramid_levels - 1 and min(level_video.shape[1:3]) > 4\<close> and
  puts \<^verbatim>\<open>np.zeros_like(level_video)\<close> in its place otherwise.
\<close>

definition zeros_like :: "real volume \<Rightarrow> real volume" where
  "zeros_like v = v\<lparr>slices := map (map (\<lambda>_. 0)) (slices v)\<rparr>"

definition is_filtered :: "int \<Rightarrow> nat \<Rightarrow> real volume \<Rightarrow> bool" where
  "is_filtered pyramid_levels level_idx level_video =
     (int level_idx < pyramid_levels - 1 \<and> min (vrows level_video) (vcols level_video) > 4)"

fun filter_levels ::
  "int \<Rightarrow> real \<Rightarrow> real \<Rightarrow> real \<Rightarrow> nat \<Rightarrow> real volume list \<Rightarrow> error + real volume list" where
  "filter_levels pyramid_levels fps low_freq high_freq level_idx [] = Inr []"
| "filter_levels pyramid_levels fps low_freq high_freq level_idx (level_video # rest) =
     (if is_filtered pyramid_levels level_idx level_video then
        (case temporal_bandpass_filter level_video fps low_freq high_freq of
           Inl e \<Rightarrow> Inl e
         | Inr filtered_level \<Rightarrow>
             (case filter_levels pyramid_levels fps low_freq high_freq (Suc level_idx) rest of
                Inl e \<Rightarrow> Inl e
              | Inr filtered \<Rightarrow> Inr (filtered_level # filtered)))
      else
        (case filter_levels pyramid_levels fps low_freq high_freq (Suc level_idx) rest of
           Inl e \<Rightarrow> Inl e
         | Inr filtered \<Rightarrow> Inr (zeros_like level_video # filtered)))"

text \<open>Step 4: \<^verbatim>\<open>level * amplification_factor\<close>, entry by entry.\<close>

definition amplify :: "real volume \<Rightarrow> real \<Rightarrow> real volume" where
  "amplify level amplification_factor =
     level\<lparr>slices := map (map (\<lambda>x. x * amplification_factor)) (slices level)\<rparr>"

text \<open>
  Step 5. \<^verbatim>\<open>pyramid_video_t[level_idx]\<close> indexes a Python list, \<^verbatim>\<open>[i]\<close> then
  takes a time slice of the array; both raise \<^verbatim>\<open>IndexError\<close> out of range.
  \<^verbatim>\<open>+\<close> adds two arrays entry by entry; the two operands have one shape on
  every path of the pipeline, and operands of different shapes (which
  \<^verbatim>\<open>numpy\<close> would try to broadcast) are reported as \<^verbatim>\<open>ValueError\<close>.
\<close>

definition py_index :: "'a list \<Rightarrow> nat \<Rightarrow> error + 'a" where
  "py_index xs i = (if i < length xs then Inr (xs ! i) else Inl IndexError)"

definition time_slice :: "real volume \<Rightarrow> nat \<Rightarrow> error + frame" where
  "time_slice v i =
     (if i < length (slices v)
      then Inr \<lparr>rows = vrows v, cols = vcols v, chans = vchans v, pix = slices v ! i\<rparr>
      else Inl IndexError)"

definition np_add :: "frame \<Rightarrow> frame \<Rightarrow> error + frame" where
  "np_add a b =
     (if same_shape a b then Inr (a\<lparr>pix := map2 (+) (pix a) (pix b)\<rparr>)
      else Inl ValueError)"

definition recombine_level ::
  "real volume list \<Rightarrow> real volume list \<Rightarrow> nat \<Rightarrow> nat \<Rightarrow> error + frame" where
  "recombine_level pyramid_video_t amplified_pyramid_video_t i level_idx =
     (case py_index pyramid_video_t level_idx of
        Inl e \<Rightarrow> Inl e
      | Inr level_video \<Rightarrow>
          (case time_slice level_video i of
             Inl e \<Rightarrow> Inl e
           | Inr original_level \<Rightarrow>
               (case py_index amplified_pyramid_video_t level_idx of
                  Inl e \<Rightarrow> Inl e
                | Inr amplified_video \<Rightarrow>
                    (case time_slice amplified_video i of
                       Inl e \<Rightarrow> Inl e
                     | Inr amplified_signal \<Rightarrow> np_add original_level amplified_signal))))"

fun frame_pyramid ::
  "real volume list \<Rightarrow> real volume list \<Rightarrow> nat \<Rightarrow> nat list \<Rightarrow> error + frame list" where
  "frame_pyramid pyramid_video_t amplified_pyramid_video_t i [] = Inr []"
| "frame_pyramid pyramid_video_t amplified_pyramid_video_t i (level_idx # rest) =
     (case recombine_level pyramid_video_t amplified_pyramid_video_t i level_idx of
        Inl e \<Rightarrow> Inl e
      | Inr level \<Rightarrow>
          (case frame_pyramid pyramid_video_t amplified_pyramid_video_t i rest of
             Inl e \<Rightarrow> Inl e
           | Inr current_frame_pyramid \<Rightarrow> Inr (level # current_frame_pyramid)))"

fun reconstruct_frames ::
  "up_kernel \<Rightarrow> real volume list \<Rightarrow> real volume list \<Rightarrow> int \<Rightarrow> nat list \<Rightarrow> error + frame list" where
  "reconstruct_frames up pyramid_video_t amplified_pyramid_video_t pyramid_levels [] = Inr []"
| "reconstruct_frames up pyramid_video_t amplified_pyramid_video_t pyramid_levels (i # rest) =
     (case frame_pyramid pyramid_video_t amplified_pyramid_video_t i [0..<nat pyramid_levels] of
        Inl e \<Rightarrow> Inl e
      | Inr current_frame_pyramid \<Rightarrow>
          (case reconstruct_from_laplacian_pyramid up current_frame_pyramid of
             Inl e \<Rightarrow> Inl e
           | Inr reconstructed_frame \<Rightarrow>
               (case reconstruct_frames up pyramid_video_t amplified_pyramid_video_t
                       pyramid_levels rest of
                  Inl e \<Rightarrow> Inl e
                | Inr output_frames \<Rightarrow> Inr (reconstructed_frame # output_frames))))"

text \<open>
  The three steps in sequence. An exception in step 3 or step 5 is caught by
  the source and makes it return \<^verbatim>\<open>None\<close>.
\<close>

definition magnify ::
  "up_kernel \<Rightarrow> real volume list \<Rightarrow> nat \<Rightarrow> real \<Rightarrow> int \<Rightarrow> real \<Rightarrow> real \<Rightarrow> real
   \<Rightarrow> frame list option" where
  "magnify up pyramid_video_t num_frames fps pyramid_levels low_freq high_freq amplification_factor =
     (case filter_levels pyramid_levels fps low_freq high_freq 0 pyramid_video_t of
        Inl e \<Rightarrow> None
      | Inr filtered_pyramid_video_t \<Rightarrow>
          let amplified_pyramid_video_t =
                map (\<lambda>level. amplify level amplification_factor) filtered_pyramid_video_t
          in (case reconstruct_frames up pyramid_video_t amplified_pyramid_video_t
                     pyramid_levels [0..<num_frames] of
                Inl e \<Rightarrow> None
              | Inr output_frames \<Rightarrow> Some output_frames))"

section \<open>The same steps on a store of arrays\<close>

text \<open>
  To say which arrays a step writes to, the arrays live in a store: a list of
  arrays, an array's address being its position. A call that returns a new
  array appends it to the store; only an assignment into an array changes an
  entry that is already there. A reference is an address, or the view
  \<^verbatim>\<open>.real\<close> of the complex array at an address (a view shares its data with
  that array). \<open>TypeError\<close> is the result of following a reference to
  something that is not an array of the expected kind.
\<close>

datatype ndarray = RealArr "real volume" | ComplexArr "complex volume" | FrameArr frame

type_synonym heap = "ndarray list"

datatype ref = Array nat | RealPart nat

definition with_slices :: "'a volume \<Rightarrow> 'b list list \<Rightarrow> 'b volume" where
  "with_slices v s = \<lparr>vrows = vrows v, vcols = vcols v, vchans = vchans v, slices = s\<rparr>"

definition read_volume :: "heap \<Rightarrow> ref \<Rightarrow> error + real volume" where
  "read_volume h r =
     (case r of
        Array a \<Rightarrow>
          (if a < length h
           then (case h ! a of RealArr v \<Rightarrow> Inr v | _ \<Rightarrow> Inl TypeError)
           else Inl TypeError)
      | RealPart a \<Rightarrow>
          (if a < length h
           then (case h ! a of
                   ComplexArr F \<Rightarrow> Inr (with_slices F (map (map Re) (slices F)))
                 | _ \<Rightarrow> Inl TypeError)
           else Inl TypeError))"

definition read_complex :: "heap \<Rightarrow> nat \<Rightarrow> error + complex volume" where
  "read_complex h a =
     (if a < length h
      then (case h ! a of
              ComplexArr F \<Rightarrow> Inr F
            | RealArr v \<Rightarrow> Inr (with_slices v (map (map complex_of_real) (slices v)))
            | FrameArr f \<Rightarrow> Inl TypeError)
      else Inl TypeError)"

definition read_frame :: "heap \<Rightarrow> nat \<Rightarrow> error + frame" where
  "read_frame h a =
     (if a < length h
      then (case h ! a of FrameArr f \<Rightarrow> Inr f | _ \<Rightarrow> Inl TypeError)
      else Inl TypeError)"

text \<open>
  \<^verbatim>\<open>arr[~mask] = 0\<close>: the one assignment into an array in these steps. It
  overwrites the array at address \<open>a\<close> in place.
\<close>

definition zero_masked :: "heap \<Rightarrow> nat \<Rightarrow> bool list \<Rightarrow> heap" where
  "zero_masked h a freq_mask =
     (if a < length h
      then (case h ! a of
              ComplexArr F \<Rightarrow> h[a := ComplexArr (with_slices F (apply_mask freq_mask (slices F)))]
            | _ \<Rightarrow> h)
      else h)"

text \<open>
  \<^verbatim>\<open>temporal_bandpass_filter\<close> statement by statement: \<^verbatim>\<open>np.fft.fft\<close> returns a
  new array, \<^verbatim>\<open>.copy()\<close> another one, the masked assignment writes into
  that copy, \<^verbatim>\<open>np.fft.ifft\<close> returns a third array, and the result is its
  \<^verbatim>\<open>.real\<close> view. The store is returned also when the call raises.
\<close>

definition temporal_bandpass_filter_st ::
  "heap \<Rightarrow> ref \<Rightarrow> real \<Rightarrow> real \<Rightarrow> real \<Rightarrow> (error + ref) \<times> heap" where
  "temporal_bandpass_filter_st h data fps low_freq high_freq =
     (case read_volume h data of
        Inl e \<Rightarrow> (Inl e, h)
      | Inr v \<Rightarrow>
          let n = length (slices v)
          in if n = 0 then (Inl ValueError, h)
             else
               let fft_data = length h;
                   h1 = h @ [ComplexArr (with_slices v
                               (along_axis0 np_fft (width v)
                                  (map (map complex_of_real) (slices v))))]
               in if fps = 0 then (Inl ZeroDivisionError, h1)
                  else
                    let frequencies = fftfreq n (float64 (1 / fps));
                        freq_mask = map (\<lambda>f. \<bar>f\<bar> \<ge> low_freq \<and> \<bar>f\<bar> \<le> high_freq) frequencies;
                        fft_data_filtered = length h1;
                        h2 = h1 @ [h1 ! fft_data];
                        h3 = zero_masked h2 fft_data_filtered freq_mask
                    in (case read_complex h3 fft_data_filtered of
                          Inl e \<Rightarrow> (Inl e, h3)
                        | Inr F \<Rightarrow>
                            let filtered_data = length h3;
                                h4 = h3 @ [ComplexArr (with_slices F
                                            (along_axis0 np_ifft (width F) (slices F)))]
                            in (Inr (RealPart filtered_data), h4)))"

text \<open>Step 3 on the store: \<^verbatim>\<open>np.zeros_like\<close> returns a new array.\<close>

fun filter_levels_st ::
  "heap \<Rightarrow> int \<Rightarrow> real \<Rightarrow> real \<Rightarrow> real \<Rightarrow> nat \<Rightarrow> ref list \<Rightarrow> (error + ref list) \<times> heap" where
  "filter_levels_st h pyramid_levels fps low_freq high_freq level_idx [] = (Inr [], h)"
| "filter_levels_st h pyramid_levels fps low_freq high_freq level_idx (level_video # rest) =
     (case read_volume h level_video of
        Inl e \<Rightarrow> (Inl e, h)
      | Inr v \<Rightarrow>
          (case (if is_filtered pyramid_levels level_idx v
                 then temporal_bandpass_filter_st h level_video fps low_freq high_freq
                 else (Inr (Array (length h)), h @ [RealArr (zeros_like v)])) of
             (Inl e, h') \<Rightarrow> (Inl e, h')
           | (Inr filtered_level, h') \<Rightarrow>
               (case filter_levels_st h' pyramid_levels fps low_freq high_freq
                       (Suc level_idx) rest of
                  (Inl e, h'') \<Rightarrow> (Inl e, h'')
                | (Inr filtered, h'') \<Rightarrow> (Inr (filtered_level # filtered), h''))))"

text \<open>Step 4 on the store: \<^verbatim>\<open>level * amplification_factor\<close> returns a new array.\<close>

fun amplify_st :: "heap \<Rightarrow> real \<Rightarrow> ref list \<Rightarrow> (error + ref list) \<times> heap" where
  "amplify_st h amplification_factor [] = (Inr [], h)"
| "amplify_st h amplification_factor (level # rest) =
     (case read_volume h level of
        Inl e \<Rightarrow> (Inl e, h)
      | Inr v \<Rightarrow>
          (case amplify_st (h @ [RealArr (amplify v amplification_factor)])
                  amplification_factor rest of
             (Inl e, h') \<Rightarrow> (Inl e, h')
           | (Inr amplified, h') \<Rightarrow> (Inr (Array (length h) # amplified), h')))"

text \<open>
  Step 5 on the store: the two operands of \<^verbatim>\<open>+\<close> are read through the
  references at the time of the addition, and the sum is a new array. The
  arrays that \<^verbatim>\<open>reconstruct_from_laplacian_pyramid\<close> makes on its way are all
  new and are not recorded in the store.
\<close>

definition recombine_level_st ::
  "heap \<Rightarrow> ref list \<Rightarrow> ref list \<Rightarrow> nat \<Rightarrow> nat \<Rightarrow> (error + nat) \<times> heap" where
  "recombine_level_st h pyramid_video_t amplified_pyramid_video_t i level_idx =
     (case py_index pyramid_video_t level_idx of
        Inl e \<Rightarrow> (Inl e, h)
      | Inr level_ref \<Rightarrow>
          (case read_volume h level_ref of
             Inl e \<Rightarrow> (Inl e, h)
           | Inr level_video \<Rightarrow>
               (case time_slice level_video i of
                  Inl e \<Rightarrow> (Inl e, h)
                | Inr original_level \<Rightarrow>
                    (case py_index amplified_pyramid_video_t level_idx of
                       Inl e \<Rightarrow> (Inl e, h)
                     | Inr amplified_ref \<Rightarrow>
                         (case read_volume h amplified_ref of
                            Inl e \<Rightarrow> (Inl e, h)
                          | Inr amplified_video \<Rightarrow>
                              (case time_slice amplified_video i of
                                 Inl e \<Rightarrow> (Inl e, h)
                               | Inr amplified_signal \<Rightarrow>
                                   (case np_add original_level amplified_signal of
                                      Inl e \<Rightarrow> (Inl e, h)
                                    | Inr level \<Rightarrow> (Inr (length h), h @ [FrameArr level]))))))))"

fun frame_pyramid_st ::
  "heap \<Rightarrow> ref list \<Rightarrow> ref list \<Rightarrow> nat \<Rightarrow> nat list \<Rightarrow> (error + nat list) \<times> heap" where
  "frame_pyramid_st h pyramid_video_t amplified_pyramid_video_t i [] = (Inr [], h)"
| "frame_pyramid_st h pyramid_video_t amplified_pyramid_video_t i (level_idx # rest) =
     (case recombine_level_st h pyramid_video_t amplified_pyramid_video_t i level_idx of
        (Inl e, h') \<Rightarrow> (Inl e, h')
      | (Inr level, h') \<Rightarrow>
          (case frame_pyramid_st h' pyramid_video_t amplified_pyramid_video_t i rest of
             (Inl e, h'') \<Rightarrow> (Inl e, h'')
           | (Inr current_frame_pyramid, h'') \<Rightarrow> (Inr (level # current_frame_pyramid), h'')))"

fun read_frames :: "heap \<Rightarrow> nat list \<Rightarrow> error + frame list" where
  "read_frames h [] = Inr []"
| "read_frames h (a # rest) =
     (case read_frame h a of
        Inl e \<Rightarrow> Inl e
      | Inr f \<Rightarrow> (case read_frames h rest of Inl e \<Rightarrow> Inl e | Inr fs \<Rightarrow> Inr (f # fs)))"

fun reconstruct_frames_st ::
  "heap \<Rightarrow> up_kernel \<Rightarrow> ref list \<Rightarrow> ref list \<Rightarrow> int \<Rightarrow> nat list \<Rightarrow> (error + frame list) \<times> heap" where
  "reconstruct_frames_st h up pyramid_video_t amplified_pyramid_video_t pyramid_levels [] =
     (Inr [], h)"
| "reconstruct_frames_st h up pyramid_video_t amplified_pyramid_video_t pyramid_levels (i # rest) =
     (case frame_pyramid_st h pyramid_video_t amplified_pyramid_video_t i
             [0..<nat pyramid_levels] of
        (Inl e, h') \<Rightarrow> (Inl e, h')
      | (Inr current_frame_pyramid, h') \<Rightarrow>
          (case read_frames h' current_frame_pyramid of
             Inl e \<Rightarrow> (Inl e, h')
           | Inr levels \<Rightarrow>
               (case reconstruct_from_laplacian_pyramid up levels of
                  Inl e \<Rightarrow> (Inl e, h')
                | Inr reconstructed_frame \<Rightarrow>
                    (case reconstruct_frames_st h' up pyramid_video_t amplified_pyramid_video_t
                            pyramid_levels rest of
                       (Inl e, h'') \<Rightarrow> (Inl e, h'')
                     | (Inr output_frames, h'') \<Rightarrow>
                         (Inr (reconstructed_frame # output_frames), h'')))))"

definition magnify_st ::
  "heap \<Rightarrow> up_kernel \<Rightarrow> ref list \<Rightarrow> nat \<Rightarrow> real \<Rightarrow> int \<Rightarrow> real \<Rightarrow> real \<Rightarrow> real
   \<Rightarrow> frame list option \<times> heap" where
  "magnify_st h up pyramid_video_t num_frames fps pyramid_levels low_freq high_freq
       amplification_factor =
     (case filter_levels_st h pyramid_levels fps low_freq high_freq 0 pyramid_video_t of
        (Inl e, h1) \<Rightarrow> (None, h1)
      | (Inr filtered_pyramid_video_t, h1) \<Rightarrow>
          (case amplify_st h1 amplification_factor filtered_pyramid_video_t of
             (Inl e, h2) \<Rightarrow> (None, h2)
           | (Inr amplified_pyramid_video_t, h2) \<Rightarrow>
               (case reconstruct_frames_st h2 up pyramid_video_t amplified_pyramid_video_t
                       pyramid_levels [0..<num_frames] of
                  (Inl e, h3) \<Rightarrow> (None, h3)
                | (Inr output_frames, h3) \<Rightarrow> (Some output_frames, h3))))"

section \<open>Auxiliary notions for the proofs\<close>

text \<open>
  A list of frames in which every frame is a well-formed, non-empty array and
  each one has the channels of its predecessor and half its rows and columns,
  rounded up: the shape of a Gaussian pyramid.
\<close>

fun chain :: "frame list \<Rightarrow> bool" where
  "chain [] = True"
| "chain [g] = (wf_frame g \<and> 1 \<le> rows g \<and> 1 \<le> cols g)"
| "chain (g # g' # gs) =
     (wf_frame g \<and> 1 \<le> rows g \<and> 1 \<le> cols g
      \<and> rows g' = (rows g + 1) div 2 \<and> cols g' = (cols g + 1) div 2 \<and> chans g' = chans g
      \<and> chain (g' # gs))"

text \<open>What \<^verbatim>\<open>temporal_bandpass_filter\<close> does to a single series along the time axis.\<close>

definition filter_series :: "real \<Rightarrow> real \<Rightarrow> real \<Rightarrow> real list \<Rightarrow> real list" where
  "filter_series fps low_freq high_freq x =
     map Re (np_ifft
       (map2 (\<lambda>keep X. if keep then X else 0)
          (map (\<lambda>f. \<bar>f\<bar> \<ge> low_freq \<and> \<bar>f\<bar> \<le> high_freq) (fftfreq (length x) (float64 (1 / fps))))
          (np_fft (map complex_of_real x))))"

text \<open>
  Two kernels to run the pyramid functions on concrete frames, both without
  any blur: the first keeps every second pixel of every second row, the
  second repeats each pixel of the source.
\<close>

definition sample_down :: down_kernel where
  "sample_down src i =
     (let ch = chans src;
          c' = (cols src + 1) div 2;
          r = i div (c' * ch);
          c = (i div ch) mod c';
          k = i mod ch
      in pix src ! ((2 * r * cols src + 2 * c) * ch + k))"

definition sample_up :: up_kernel where
  "sample_up src dstsize i =
     (case dstsize of (w, h) \<Rightarrow>
        let ch = chans src;
            r = i div (w * ch);
            c = (i div ch) mod w;
            k = i mod ch
        in pix src ! (((r div 2) * cols src + c div 2) * ch + k))"

section \<open>Concrete inputs\<close>

text \<open>
  A frame of 3 rows, 5 columns and 3 channels, the two frames that
  \<open>sample_down\<close> makes of it in turn, and a frame of a single pixel.
\<close>

definition frame_3x5 :: frame where
  "frame_3x5 = \<lparr>rows = 3, cols = 5, chans = 3, pix = map real [1..<46]\<rparr>"

definition frame_2x3 :: frame where
  "frame_2x3 = \<lparr>rows = 2, cols = 3, chans = 3,
                 pix = [1, 2, 3, 7, 8, 9, 13, 14, 15, 31, 32, 33, 37, 38, 39, 43, 44, 45]\<rparr>"

definition frame_1x2 :: frame where
  "frame_1x2 = \<lparr>rows = 1, cols = 2, chans = 3, pix = [1, 2, 3, 13, 14, 15]\<rparr>"

definition frame_1x1 :: frame where
  "frame_1x1 = \<lparr>rows = 1, cols = 1, chans = 3, pix = [3, 6, 9]\<rparr>"

text \<open>
  Volumes of one pixel with one time sample and with two, and a volume of two
  pixels that is the same at its three times.
\<close>

definition single_frame_volume :: "real volume" where
  "single_frame_volume = \<lparr>vrows = 1, vcols = 1, vchans = 3, slices = [[5, 6, 7]]\<rparr>"

definition varying_volume :: "real volume" where
  "varying_volume = \<lparr>vrows = 1, vcols = 1, vchans = 3, slices = [[1, 2, 3], [4, 6, 8]]\<rparr>"

definition constant_volume :: "real volume" where
  "constant_volume = \<lparr>vrows = 1, vcols = 2, vchans = 3,
                       slices = [[7, 9, 11, 13, 15, 17], [7, 9, 11, 13, 15, 17],
                                 [7, 9, 11, 13, 15, 17]]\<rparr>"

text \<open>
  The temporal volumes of a pyramid of three levels over two frames: a level
  of 5 by 5 pixels that is the same in both frames, a level of 3 by 3 pixels
  and a level of 2 by 2 pixels.
\<close>

definition level0_volume :: "real volume" where
  "level0_volume = \<lparr>vrows = 5, vcols = 5, vchans = 3,
                     slices = [replicate 75 (1 / 2), replicate 75 (1 / 2)]\<rparr>"

definition level1_volume :: "real volume" where
  "level1_volume = \<lparr>vrows = 3, vcols = 3, vchans = 3,
                     slices = [map real [1..<28], map real [28..<55]]\<rparr>"

definition level2_volume :: "real volume" where
  "level2_volume = \<lparr>vrows = 2, vcols = 2, vchans = 3,
                     slices = [map real [1..<13], map real [13..<25]]\<rparr>"


definition moving_level_volume :: "real volume" where
  "moving_level_volume = \<lparr>vrows = 5, vcols = 5, vchans = 3,
                           slices = [map real [0..<75], map (\<lambda>k. 3 * real k) [0..<75]]\<rparr>"

section \<open>Properties of the pyramid functions\<close>

lemma pyrDown_Inr:
  assumes "1 \<le> rows f" "1 \<le> cols f"
  shows "\<exists>g. pyrDown down f = Inr g \<and> rows g = (rows f + 1) div 2 \<and> cols g = (cols f + 1) div 2
             \<and> chans g = chans f \<and> wf_frame g \<and> 1 \<le> rows g \<and> 1 \<le> cols g"
proof -
  have "1 \<le> (rows f + 1) div 2" "1 \<le> (cols f + 1) div 2" using assms by arith+
  then show ?thesis using assms by (simp add: pyrDown_def Let_def wf_frame_def)
qed

lemma gaussian_loop_chain:
  assumes "wf_frame f" "1 \<le> rows f" "1 \<le> cols f"
  shows "\<exists>gs. gaussian_loop down n f = Inr gs \<and> length gs = n \<and> chain (f # gs)"
  using assms
proof (induction n arbitrary: f)
  case 0
  then show ?case by simp
next
  case (Suc n)
  from pyrDown_Inr[OF Suc.prems(2,3)] obtain g where g: "pyrDown down f = Inr g"
    "rows g = (rows f + 1) div 2" "cols g = (cols f + 1) div 2" "chans g = chans f"
    "wf_frame g" "1 \<le> rows g" "1 \<le> cols g" by blast
  from Suc.IH[OF g(5,6,7)] obtain gs where gs: "gaussian_loop down n g = Inr gs" "length gs = n" "chain (g # gs)"
    by blast
  show ?case using g gs Suc.prems by simp
qed

lemma map2_add_sub:
  "length us = length ps \<Longrightarrow> map2 (+) us (map2 (-) ps us) = (ps :: real list)"
  by (induction us ps rule: list_induct2) auto

lemma pyrUp_halved:
  assumes "1 \<le> rows g'" "1 \<le> cols g'" "rows g' = (rows g + 1) div 2" "cols g' = (cols g + 1) div 2"
  shows "pyrUp up g' (cols g, rows g) =
         Inr \<lparr>rows = rows g, cols = cols g, chans = chans g',
              pix = map (up g' (cols g, rows g)) [0..<rows g * cols g * chans g']\<rparr>"
proof -
  have "\<bar>int (cols g) - 2 * int (cols g')\<bar> \<le> int (cols g mod 2)"
    using assms(4) by (simp add: zmod_int) presburger
  moreover have "\<bar>int (rows g) - 2 * int (rows g')\<bar> \<le> int (rows g mod 2)"
    using assms(3) by (simp add: zmod_int) presburger
  ultimately show ?thesis using assms(1,2) by (simp add: pyrUp_def)
qed

lemma reconstruct_single: "reconstruct_from_laplacian_pyramid up [l] = Inr l"
  by (simp add: reconstruct_from_laplacian_pyramid_def)

lemma reconstruct_loop_snoc:
  "reconstruct_loop up (xs @ [l]) img =
     (case reconstruct_loop up xs img of
        Inl e \<Rightarrow> Inl e
      | Inr acc \<Rightarrow> reconstruct_loop up [l] acc)"
  by (induction xs arbitrary: img) (auto split: sum.splits)

lemma reconstruct_Cons:
  assumes "rest \<noteq> []"
  shows "reconstruct_from_laplacian_pyramid up (l # rest) =
     (case reconstruct_from_laplacian_pyramid up rest of
        Inl e \<Rightarrow> Inl e
      | Inr acc \<Rightarrow> reconstruct_loop up [l] acc)"
proof -
  from assms obtain img finer where r: "rev rest = img # finer"
    by (cases "rev rest") auto
  show ?thesis
    by (simp add: reconstruct_from_laplacian_pyramid_def r reconstruct_loop_snoc)
qed

lemma laplacian_roundtrip_chain:
  assumes "chain gs" "gs \<noteq> []"
  shows "\<exists>ls. laplacian_loop up gs = Inr ls \<and> length ls = length gs
            \<and> list_all2 same_shape ls gs
            \<and> reconstruct_from_laplacian_pyramid up ls = Inr (hd gs)"
  using assms
proof (induction up gs rule: laplacian_loop.induct)
  case (1 up)
  then show ?case by simp
next
  case (2 up g)
  then show ?case by (simp add: reconstruct_single same_shape_def)
next
  case (3 up g g' gs)
  from "3.prems" have c: "wf_frame g" "1 \<le> rows g" "1 \<le> cols g"
    "rows g' = (rows g + 1) div 2" "cols g' = (cols g + 1) div 2" "chans g' = chans g"
    "chain (g' # gs)" by simp_all
  have g'pos: "1 \<le> rows g'" "1 \<le> cols g'" using c(7) by (cases gs, simp_all)+
  define u where "u = \<lparr>rows = rows g, cols = cols g, chans = chans g',
              pix = map (up g' (cols g, rows g)) [0..<rows g * cols g * chans g']\<rparr>"
  have up: "pyrUp up g' (cols g, rows g) = Inr u"
    unfolding u_def by (rule pyrUp_halved[OF g'pos c(4,5)])
  have shp: "same_shape g u" by (simp add: same_shape_def u_def c)
  define l where "l = g\<lparr>pix := map2 (-) (pix g) (pix u)\<rparr>"
  have sub: "cv_subtract g u = Inr l" using shp by (simp add: cv_subtract_def l_def)
  from "3.IH"[OF up sub c(7)] obtain rest where rest: "laplacian_loop up (g' # gs) = Inr rest"
    "length rest = length (g' # gs)" "list_all2 same_shape rest (g' # gs)"
    "reconstruct_from_laplacian_pyramid up rest = Inr g'" by auto
  have ne: "rest \<noteq> []" using rest(2) by auto
  have lenu: "length (pix u) = length (pix g)" using c(1,6) by (simp add: u_def wf_frame_def)
  have "cv_add u l = Inr (u\<lparr>pix := map2 (+) (pix u) (map2 (-) (pix g) (pix u))\<rparr>)"
    using c(6) by (simp add: cv_add_def l_def same_shape_def u_def)
  also have "u\<lparr>pix := map2 (+) (pix u) (map2 (-) (pix g) (pix u))\<rparr> = g"
  proof -
    have "u\<lparr>pix := pix g\<rparr> = g" using c(6) by (simp add: u_def)
    then show ?thesis by (simp add: map2_add_sub[OF lenu])
  qed
  finally have add: "cv_add u l = Inr g" .
  have "reconstruct_from_laplacian_pyramid up (l # rest) = Inr g"
    using up add by (simp add: reconstruct_Cons[OF ne] rest(4) l_def)
  moreover have "same_shape l g" by (simp add: same_shape_def l_def)
  ultimately show ?case using up sub rest by simp
qed

lemma gaussian_loop_Inl:
  "gaussian_loop down n f = Inl e \<longleftrightarrow> (1 \<le> n \<and> (rows f = 0 \<or> cols f = 0) \<and> e = CvError)"
proof (cases n)
  case 0
  then show ?thesis by simp
next
  case (Suc k)
  show ?thesis
  proof (cases "rows f = 0 \<or> cols f = 0")
    case True
    then show ?thesis using Suc by (auto simp: pyrDown_def)
  next
    case False
    then have pos: "1 \<le> rows f" "1 \<le> cols f" by simp_all
    have "\<exists>gs. gaussian_loop down m g = Inr gs" if "1 \<le> rows g" "1 \<le> cols g" for m g
      using that
    proof (induction m arbitrary: g)
      case 0
      then show ?case by simp
    next
      case (Suc m)
      from pyrDown_Inr[OF Suc.prems] obtain g' where g': "pyrDown down g = Inr g'"
        "1 \<le> rows g'" "1 \<le> cols g'" by blast
      from Suc.IH[OF g'(2,3)] obtain gs where "gaussian_loop down m g' = Inr gs" by blast
      then show ?case using g'(1) by simp
    qed
    from this[OF pos] obtain gs where "gaussian_loop down n f = Inr gs" by blast
    then show ?thesis using False by simp
  qed
qed

lemma gaussian_loop_shape:
  "gaussian_loop down n f = Inr gs \<Longrightarrow>
     length gs = n \<and>
     (\<forall>i<n. rows ((f # gs) ! Suc i) = (rows ((f # gs) ! i) + 1) div 2
          \<and> cols ((f # gs) ! Suc i) = (cols ((f # gs) ! i) + 1) div 2
          \<and> chans ((f # gs) ! Suc i) = chans f)"
proof (induction n arbitrary: f gs)
  case 0
  then show ?case by simp
next
  case (Suc n)
  from Suc.prems obtain g rest where g: "pyrDown down f = Inr g"
    and rest: "gaussian_loop down n g = Inr rest" and gs: "gs = g # rest"
    by (auto split: sum.splits)
  have shp: "rows g = (rows f + 1) div 2" "cols g = (cols f + 1) div 2" "chans g = chans f"
    using g by (auto simp: pyrDown_def Let_def split: if_splits)
  from Suc.IH[OF rest] have len: "length rest = n"
    and ih: "\<forall>i<n. rows ((g # rest) ! Suc i) = (rows ((g # rest) ! i) + 1) div 2
          \<and> cols ((g # rest) ! Suc i) = (cols ((g # rest) ! i) + 1) div 2
          \<and> chans ((g # rest) ! Suc i) = chans g" by simp_all
  show ?case
  proof (intro conjI allI impI)
    show "length gs = Suc n" using len gs by simp
  next
    fix i assume i: "i < Suc n"
    show "rows ((f # gs) ! Suc i) = (rows ((f # gs) ! i) + 1) div 2"
      using i ih shp gs by (cases i) simp_all
    show "cols ((f # gs) ! Suc i) = (cols ((f # gs) ! i) + 1) div 2"
      using i ih shp gs by (cases i) simp_all
    show "chans ((f # gs) ! Suc i) = chans f"
      using i ih shp gs by (cases i) simp_all
  qed
qed

lemma laplacian_loop_shape:
  "laplacian_loop up gs = Inr ls \<Longrightarrow> list_all2 same_shape ls gs"
proof (induction up gs arbitrary: ls rule: laplacian_loop.induct)
  case (1 up)
  then show ?case by simp
next
  case (2 up g)
  then show ?case by (auto simp: same_shape_def)
next
  case (3 up g g' gs)
  from "3.prems" obtain u l rest where u: "pyrUp up g' (cols g, rows g) = Inr u"
    and l: "cv_subtract g u = Inr l" and rest: "laplacian_loop up (g' # gs) = Inr rest"
    and ls: "ls = l # rest"
    by (auto split: sum.splits)
  have "same_shape l g" using l by (auto simp: cv_subtract_def same_shape_def split: if_splits)
  then show ?case using "3.IH"[OF u l rest] ls by simp
qed

lemma gaussian_3x5:
  "build_gaussian_pyramid sample_down frame_3x5 3 = Inr [frame_3x5, frame_2x3, frame_1x2]"
  by code_simp

lemma gaussian_3x5_two:
  "build_gaussian_pyramid sample_down frame_3x5 2 = Inr [frame_3x5, frame_2x3]"
  by code_simp

lemma gaussian_1x1:
  "build_gaussian_pyramid sample_down frame_1x1 3
   = Inr [frame_1x1, frame_1x1, frame_1x1]"
  by code_simp

text \<open>
  Claim C1 (round trip). For every well-formed, non-empty frame \<open>F\<close> and every
  level count, \<^verbatim>\<open>build_laplacian_pyramid\<close> succeeds and
  \<^verbatim>\<open>reconstruct_from_laplacian_pyramid\<close> of its result gives back \<open>F\<close>: each
  Laplacian level is the Gaussian level minus the upsampled next level, and
  the reconstruction adds the same upsampled image again. The arithmetic is
  exact here, so the two frames are equal; how far floating-point rounding
  moves them apart is not part of the statement.
\<close>

theorem laplacian_round_trip:
  assumes "wf_frame F" "1 \<le> rows F" "1 \<le> cols F"
  shows "\<exists>p. build_laplacian_pyramid down up F levels = Inr p
             \<and> reconstruct_from_laplacian_pyramid up p = Inr F"
proof -
  from gaussian_loop_chain[OF assms] obtain gs
    where gs: "gaussian_loop down (nat (levels - 1)) F = Inr gs" "chain (F # gs)" by blast
  from laplacian_roundtrip_chain[OF gs(2)] obtain ls
    where "laplacian_loop up (F # gs) = Inr ls" "reconstruct_from_laplacian_pyramid up ls = Inr F"
    by auto
  then show ?thesis using gs(1)
    by (simp add: build_laplacian_pyramid_def build_gaussian_pyramid_def)
qed

text \<open>Claim C1 at the frame \<open>frame_3x5\<close> with three levels.\<close>

theorem laplacian_round_trip_witness:
  "wf_frame frame_3x5 \<and> 1 \<le> rows frame_3x5 \<and> 1 \<le> cols frame_3x5
   \<and> (\<exists>p. build_laplacian_pyramid sample_down sample_up frame_3x5 3 = Inr p
           \<and> reconstruct_from_laplacian_pyramid sample_up p = Inr frame_3x5)"
proof -
  have h: "wf_frame frame_3x5" "1 \<le> rows frame_3x5" "1 \<le> cols frame_3x5"
    by (simp_all add: frame_3x5_def wf_frame_def)
  show ?thesis
    using h laplacian_round_trip[OF h, of sample_down sample_up 3] by simp
qed

text \<open>
  Claim C4 says that each level has half the rows and columns of the one
  before, rounded down. \<^verbatim>\<open>cv2.pyrDown\<close> rounds up: the level after a frame of
  3 rows and 5 columns has 2 rows and 3 columns, not 1 and 2.
\<close>

theorem pyramid_halves_rounding_down_counterexample:
  "build_gaussian_pyramid sample_down frame_3x5 2 = Inr [frame_3x5, frame_2x3]
   \<and> rows frame_2x3 \<noteq> rows frame_3x5 div 2
   \<and> cols frame_2x3 \<noteq> cols frame_3x5 div 2"
  by (simp add: gaussian_3x5_two) (simp add: frame_3x5_def frame_2x3_def)

text \<open>
  Claim C4, amended. When \<open>levels \<ge> 1\<close> and the Gaussian pyramid builds, it has
  exactly \<open>levels\<close> entries, entry 0 is the input frame, each later entry has
  half the rows and columns of the one before, rounded up, and every entry has
  the channels of the input frame; the Laplacian pyramid, when it builds, has
  \<open>levels\<close> entries of the same shapes.
\<close>

theorem pyramid_shape:
  assumes "1 \<le> levels" and "build_gaussian_pyramid down F levels = Inr p"
  shows "length p = nat levels \<and> p ! 0 = F
       \<and> (\<forall>i. Suc i < nat levels \<longrightarrow>
              rows (p ! Suc i) = (rows (p ! i) + 1) div 2
            \<and> cols (p ! Suc i) = (cols (p ! i) + 1) div 2)
       \<and> (\<forall>i<nat levels. chans (p ! i) = chans F)
       \<and> (\<forall>q. build_laplacian_pyramid down up F levels = Inr q \<longrightarrow>
              length q = nat levels \<and> list_all2 same_shape q p)"
proof -
  from assms(2) obtain gs where gs: "gaussian_loop down (nat (levels - 1)) F = Inr gs"
    and p: "p = F # gs"
    by (auto simp: build_gaussian_pyramid_def split: sum.splits)
  from gaussian_loop_shape[OF gs] have len: "length gs = nat (levels - 1)"
    and sh: "\<forall>i<nat (levels - 1). rows (p ! Suc i) = (rows (p ! i) + 1) div 2
          \<and> cols (p ! Suc i) = (cols (p ! i) + 1) div 2
          \<and> chans (p ! Suc i) = chans F" unfolding p by simp_all
  have lenp: "length p = nat levels" using len assms(1) p by simp
  have suc: "Suc i < nat levels \<longleftrightarrow> i < nat (levels - 1)" for i using assms(1) by linarith
  have ch: "chans (p ! i) = chans F" if "i < nat levels" for i
  proof (cases i)
    case 0
    then show ?thesis by (simp add: p)
  next
    case (Suc k)
    then have "k < nat (levels - 1)" using that suc by simp
    then show ?thesis using sh Suc by simp
  qed
  have lap: "length q = nat levels \<and> list_all2 same_shape q p"
    if "build_laplacian_pyramid down up F levels = Inr q" for q
  proof -
    from that have "laplacian_loop up p = Inr q"
      by (simp add: build_laplacian_pyramid_def assms(2))
    from laplacian_loop_shape[OF this] show ?thesis
      using lenp by (simp add: list_all2_lengthD)
  qed
  show ?thesis using lenp sh suc ch lap by (simp add: p)
qed

text \<open>Claim C4, amended, at the frame \<open>frame_3x5\<close> with three levels.\<close>

theorem pyramid_shape_witness:
  "length [frame_3x5, frame_2x3, frame_1x2] = nat 3
   \<and> [frame_3x5, frame_2x3, frame_1x2] ! 0 = frame_3x5
   \<and> rows frame_2x3 = (rows frame_3x5 + 1) div 2 \<and> cols frame_2x3 = (cols frame_3x5 + 1) div 2
   \<and> rows frame_1x2 = (rows frame_2x3 + 1) div 2 \<and> cols frame_1x2 = (cols frame_2x3 + 1) div 2
   \<and> chans frame_1x2 = chans frame_3x5"
proof -
  have l: "(1::int) \<le> 3" by simp
  note w = pyramid_shape[OF l gaussian_3x5, of sample_up]
  from w have "length [frame_3x5, frame_2x3, frame_1x2] = nat 3"
    and "[frame_3x5, frame_2x3, frame_1x2] ! 0 = frame_3x5" by blast+
  moreover from w have a: "\<forall>i. Suc i < nat 3 \<longrightarrow>
              rows ([frame_3x5, frame_2x3, frame_1x2] ! Suc i) = (rows ([frame_3x5, frame_2x3, frame_1x2] ! i) + 1) div 2
            \<and> cols ([frame_3x5, frame_2x3, frame_1x2] ! Suc i) = (cols ([frame_3x5, frame_2x3, frame_1x2] ! i) + 1) div 2"
    by blast
  from a[rule_format, of 0] a[rule_format, of 1]
  have "rows frame_2x3 = (rows frame_3x5 + 1) div 2 \<and> cols frame_2x3 = (cols frame_3x5 + 1) div 2
   \<and> rows frame_1x2 = (rows frame_2x3 + 1) div 2 \<and> cols frame_1x2 = (cols frame_2x3 + 1) div 2"
    by simp
  moreover from w have c: "\<forall>i<nat 3. chans ([frame_3x5, frame_2x3, frame_1x2] ! i) = chans frame_3x5"
    by blast
  from c[rule_format, of 2] have "chans frame_1x2 = chans frame_3x5" by simp
  ultimately show ?thesis by blast
qed

text \<open>
  Claim C7 says that \<^verbatim>\<open>build_gaussian_pyramid\<close> fails when \<open>levels < 1\<close> and
  when decimation runs out of pixels. It does neither: with \<open>levels = 0\<close> it
  returns the frame alone, and a frame of one pixel, which halving with
  rounding down would leave without pixels, is decimated to a frame of one
  pixel as often as asked (to itself, by \<open>sample_down\<close>).
\<close>

theorem gaussian_pyramid_errors_counterexample:
  "build_gaussian_pyramid sample_down frame_3x5 0 = Inr [frame_3x5]
   \<and> build_gaussian_pyramid sample_down frame_1x1 3
     = Inr [frame_1x1, frame_1x1, frame_1x1]"
  by (simp add: gaussian_1x1) (simp add: build_gaussian_pyramid_def)

text \<open>
  Claim C7, amended, for frames with at least one channel.
  \<^verbatim>\<open>build_gaussian_pyramid\<close> checks neither the level count nor the size: it
  fails exactly when \<open>levels \<ge> 2\<close> and the input frame has no
  rows or no columns, with the error of \<^verbatim>\<open>cv2.pyrDown\<close>; when \<open>levels < 1\<close>
  it returns the pyramid that holds the input frame alone; and for a frame
  with at least one row and one column it returns a pyramid for every level
  count, however large.
\<close>

theorem gaussian_pyramid_failure:
  assumes "1 \<le> chans F"
  shows "(build_gaussian_pyramid down F levels = Inl e
            \<longleftrightarrow> 2 \<le> levels \<and> (rows F = 0 \<or> cols F = 0) \<and> e = CvError)
       \<and> (levels < 1 \<longrightarrow> build_gaussian_pyramid down F levels = Inr [F])
       \<and> (1 \<le> rows F \<and> 1 \<le> cols F \<longrightarrow>
            (\<exists>p. build_gaussian_pyramid down F levels = Inr p
                  \<and> length p = nat (levels - 1) + 1))"
proof -
  have ok: "\<exists>p. build_gaussian_pyramid down F levels = Inr p \<and> length p = nat (levels - 1) + 1"
    if "1 \<le> rows F" "1 \<le> cols F"
  proof -
    from that have "\<forall>e. gaussian_loop down (nat (levels - 1)) F \<noteq> Inl e"
      by (simp add: gaussian_loop_Inl)
    then obtain gs where gs: "gaussian_loop down (nat (levels - 1)) F = Inr gs"
      by (cases "gaussian_loop down (nat (levels - 1)) F") auto
    from gaussian_loop_shape[OF gs] have "length gs = nat (levels - 1)" by simp
    then show ?thesis using gs by (simp add: build_gaussian_pyramid_def)
  qed
  have "build_gaussian_pyramid down F levels = Inl e
        \<longleftrightarrow> gaussian_loop down (nat (levels - 1)) F = Inl e"
    by (simp add: build_gaussian_pyramid_def split: sum.splits)
  moreover have "1 \<le> nat (levels - 1) \<longleftrightarrow> 2 \<le> levels" by linarith
  ultimately show ?thesis using ok
    by (simp add: gaussian_loop_Inl) (simp add: build_gaussian_pyramid_def)
qed

text \<open>
  Claim C7, amended, at a frame without rows, at \<open>levels = - 1\<close> and at seven
  levels of \<open>frame_3x5\<close>.
\<close>

theorem gaussian_pyramid_failure_witness:
  "1 \<le> chans frame_3x5
   \<and> build_gaussian_pyramid sample_down (frame_3x5\<lparr>rows := 0\<rparr>) 2 = Inl CvError
   \<and> build_gaussian_pyramid sample_down frame_3x5 (- 1) = Inr [frame_3x5]
   \<and> (\<exists>p. build_gaussian_pyramid sample_down frame_3x5 7 = Inr p \<and> length p = 7)"
proof -
  have c: "1 \<le> chans frame_3x5" "1 \<le> chans (frame_3x5\<lparr>rows := 0\<rparr>)"
    by (simp_all add: frame_3x5_def)
  have d: "1 \<le> rows frame_3x5 \<and> 1 \<le> cols frame_3x5" by (simp add: frame_3x5_def)
  show ?thesis
    using c(1) d gaussian_pyramid_failure[OF c(2), of sample_down 2 CvError]
      gaussian_pyramid_failure[OF c(1), of sample_down "- 1" CvError]
      gaussian_pyramid_failure[OF c(1), of sample_down 7 CvError]
    by simp
qed

section \<open>Properties of the temporal filter\<close>

lemma length_np_fft [simp]: "length (np_fft a) = length a"
  by (simp add: np_fft_def Let_def)

lemma length_np_ifft [simp]: "length (np_ifft a) = length a"
  by (simp add: np_ifft_def Let_def)

lemma np_fft_nth:
  "k < length a \<Longrightarrow> np_fft a ! k = (\<Sum>m\<leftarrow>[0..<length a]. a ! m * cis (- (2 * pi * real m * real k / real (length a))))"
  by (simp add: np_fft_def Let_def)

lemma np_ifft_nth:
  "m < length A \<Longrightarrow> np_ifft A ! m = (\<Sum>k\<leftarrow>[0..<length A]. A ! k * cis (2 * pi * real m * real k / real (length A))) / of_nat (length A)"
  by (simp add: np_ifft_def Let_def)

lemma cis_root_ne_1:
  assumes "0 < k" "k < n"
  shows "cis (- (2 * pi * real k / real n)) \<noteq> 1"
proof
  assume "cis (- (2 * pi * real k / real n)) = 1"
  then have "cos (- (2 * pi * real k / real n)) = 1"
    by (simp add: complex_eq_iff)
  then obtain i :: int where i: "- (2 * pi * real k / real n) = real_of_int i * 2 * pi"
    using cos_one_2pi_int by blast
  have "real n > 0" using assms by simp
  from i have "2 * pi * (- (real k / real n)) = 2 * pi * real_of_int i"
    by simp
  then have "- (real k / real n) = real_of_int i"
    by (simp only: mult_cancel_left) simp
  then have "- real k = real_of_int i * real n"
    using \<open>real n > 0\<close> by (simp add: field_simps)
  then have "- int k = i * int n"
    by (metis (mono_tags, opaque_lifting) of_int_eq_iff of_int_minus of_int_mult of_int_of_nat_eq)
  then have "int n dvd int k" by (metis dvd_minus_iff dvd_triv_right)
  then have "n dvd k" by (simp add: int_dvd_int_iff)
  then show False using assms by (simp add: dvd_imp_le leD)
qed

lemma roots_of_unity_sum:
  assumes "k < n"
  shows "(\<Sum>m\<leftarrow>[0..<n]. cis (- (2 * pi * real m * real k / real n))) = (if k = 0 then of_nat n else 0)"
proof (cases "k = 0")
  case True
  then show ?thesis by (simp add: sum_list_triv)
next
  case False
  define w where "w = cis (- (2 * pi * real k / real n))"
  have w1: "w \<noteq> 1" unfolding w_def using cis_root_ne_1[of k n] False assms by simp
  have wn: "w ^ n = 1"
  proof -
    have "w ^ n = cis (real n * (- (2 * pi * real k / real n)))" by (simp add: w_def DeMoivre)
    also have "real n * (- (2 * pi * real k / real n)) = 2 * pi * (- real k)"
      using assms by (simp add: field_simps)
    also have "cis (2 * pi * (- real k)) = 1" by (rule cis_multiple_2pi) simp
    finally show ?thesis .
  qed
  have "(\<Sum>m\<leftarrow>[0..<n]. cis (- (2 * pi * real m * real k / real n))) = (\<Sum>m\<leftarrow>[0..<n]. w ^ m)"
  proof (rule arg_cong[where f = sum_list], rule map_cong[OF refl])
    fix m
    have "w ^ m = cis (real m * (- (2 * pi * real k / real n)))" by (simp add: w_def DeMoivre)
    then show "cis (- (2 * pi * real m * real k / real n)) = w ^ m" by (simp add: field_simps)
  qed
  also have "\<dots> = (\<Sum>m<n. w ^ m)"
    by (simp add: interv_sum_list_conv_sum_set_nat atLeast0LessThan)
  also have "\<dots> = (w ^ n - 1) / (w - 1)" using w1 by (rule geometric_sum)
  also have "\<dots> = 0" by (simp add: wn)
  finally show ?thesis using False by simp
qed


lemma sum_list_upt_cong:
  "(\<And>m. m < n \<Longrightarrow> f m = g m) \<Longrightarrow> (\<Sum>m\<leftarrow>[0..<n]. f m) = (\<Sum>m\<leftarrow>[0..<n]. (g m :: complex))"
  by (rule arg_cong[where f = sum_list], rule map_cong[OF refl]) simp

lemma sum_list_const_mult:
  "(\<Sum>m\<leftarrow>xs. (c::complex) * f m) = c * (\<Sum>m\<leftarrow>xs. f m)"
  by (induction xs) (simp_all add: algebra_simps)

lemma np_fft_replicate:
  "np_fft (replicate n c) = map (\<lambda>k. if k = 0 then of_nat n * c else 0) [0..<n]"
proof (rule nth_equalityI)
  show "length (np_fft (replicate n c)) = length (map (\<lambda>k. if k = 0 then of_nat n * c else 0) [0..<n])"
    by simp
next
  fix k assume "k < length (np_fft (replicate n c))"
  then have k: "k < n" by simp
  have "np_fft (replicate n c) ! k
        = (\<Sum>m\<leftarrow>[0..<n]. replicate n c ! m * cis (- (2 * pi * real m * real k / real n)))"
    using k by (simp add: np_fft_nth)
  also have "\<dots> = (\<Sum>m\<leftarrow>[0..<n]. c * cis (- (2 * pi * real m * real k / real n)))"
    by (rule sum_list_upt_cong) simp
  also have "\<dots> = c * (if k = 0 then of_nat n else 0)"
    by (simp only: sum_list_const_mult roots_of_unity_sum[OF k])
  finally show "np_fft (replicate n c) ! k = map (\<lambda>k. if k = 0 then of_nat n * c else 0) [0..<n] ! k"
    using k by simp
qed

lemma sum_list_only_first:
  assumes "0 < n"
  shows "(\<Sum>k\<leftarrow>[0..<n]. (if k = 0 then a else 0) * f k) = (a::complex) * f (0::nat)" (is "?S = _")
proof -
  have "[0..<n] = 0 # [1..<n]" using assms by (simp add: upt_conv_Cons)
  then have "?S = a * f 0 + (\<Sum>k\<leftarrow>[1..<n]. (if k = 0 then a else 0) * f k)" by simp
  also have "(\<Sum>k\<leftarrow>[1..<n]. (if k = 0 then a else 0) * f k) = (\<Sum>k\<leftarrow>[1..<n]. (0::complex))"
    by (rule arg_cong[where f = sum_list], rule map_cong[OF refl]) simp
  finally show ?thesis by simp
qed

lemma np_ifft_dc:
  "np_ifft (map (\<lambda>k. if k = 0 then of_nat n * c else 0) [0..<n]) = replicate n c"
proof (rule nth_equalityI)
  show "length (np_ifft (map (\<lambda>k. if k = 0 then of_nat n * c else 0) [0..<n])) = length (replicate n c)"
    by simp
next
  fix m assume "m < length (np_ifft (map (\<lambda>k. if k = 0 then of_nat n * c else 0) [0..<n]))"
  then have m: "m < n" by simp
  then have n: "0 < n" by simp
  have "np_ifft (map (\<lambda>k. if k = 0 then of_nat n * c else 0) [0..<n]) ! m
        = (\<Sum>k\<leftarrow>[0..<n]. map (\<lambda>k. if k = 0 then of_nat n * c else 0) [0..<n] ! k
               * cis (2 * pi * real m * real k / real n)) / of_nat n"
    using m by (simp add: np_ifft_nth)
  also have "(\<Sum>k\<leftarrow>[0..<n]. map (\<lambda>k. if k = 0 then of_nat n * c else 0) [0..<n] ! k
               * cis (2 * pi * real m * real k / real n))
        = (\<Sum>k\<leftarrow>[0..<n]. (if k = 0 then of_nat n * c else 0) * cis (2 * pi * real m * real k / real n))"
    by (rule sum_list_upt_cong) simp
  also have "\<dots> = of_nat n * c * cis (2 * pi * real m * real 0 / real n)"
    by (rule sum_list_only_first[OF n])
  also have "\<dots> / of_nat n = c" using n by simp
  finally show "np_ifft (map (\<lambda>k. if k = 0 then of_nat n * c else 0) [0..<n]) ! m = replicate n c ! m"
    using m by simp
qed

lemma sum_list_upt_zero:
  "(\<And>m. m < n \<Longrightarrow> f m = 0) \<Longrightarrow> (\<Sum>m\<leftarrow>[0..<n]. (f m :: complex)) = 0"
  using sum_list_upt_cong[of n f "\<lambda>_. 0"] by simp

lemma np_ifft_zero: "np_ifft (replicate n 0) = replicate n 0"
proof (rule nth_equalityI)
  fix m assume "m < length (np_ifft (replicate n 0))"
  then have m: "m < n" by simp
  have "(\<Sum>k\<leftarrow>[0..<n]. replicate n 0 ! k * cis (2 * pi * real m * real k / real n)) = 0"
    by (rule sum_list_upt_zero) simp
  then show "np_ifft (replicate n 0) ! m = replicate n 0 ! m"
    using m by (simp add: np_ifft_nth)
qed simp

lemma np_fft_scale:
  "np_fft (map (\<lambda>x. c * x) a) = map (\<lambda>x. c * x) (np_fft a)"
proof (rule nth_equalityI)
  fix k assume "k < length (np_fft (map (\<lambda>x. c * x) a))"
  then have k: "k < length a" by simp
  have "np_fft (map (\<lambda>x. c * x) a) ! k
        = (\<Sum>m\<leftarrow>[0..<length a]. map (\<lambda>x. c * x) a ! m * cis (- (2 * pi * real m * real k / real (length a))))"
    using k by (simp add: np_fft_nth)
  also have "\<dots> = (\<Sum>m\<leftarrow>[0..<length a]. c * (a ! m * cis (- (2 * pi * real m * real k / real (length a)))))"
    by (rule sum_list_upt_cong) (simp add: mult.assoc)
  also have "\<dots> = c * np_fft a ! k"
    using k by (simp only: sum_list_const_mult np_fft_nth)
  finally show "np_fft (map (\<lambda>x. c * x) a) ! k = map (\<lambda>x. c * x) (np_fft a) ! k"
    using k by simp
qed simp

lemma np_ifft_scale:
  "np_ifft (map (\<lambda>x. c * x) a) = map (\<lambda>x. c * x) (np_ifft a)"
proof (rule nth_equalityI)
  fix k assume "k < length (np_ifft (map (\<lambda>x. c * x) a))"
  then have k: "k < length a" by simp
  have "(\<Sum>m\<leftarrow>[0..<length a]. map (\<lambda>x. c * x) a ! m * cis (2 * pi * real k * real m / real (length a)))
        = (\<Sum>m\<leftarrow>[0..<length a]. c * (a ! m * cis (2 * pi * real k * real m / real (length a))))"
    by (rule sum_list_upt_cong) (simp add: mult.assoc)
  then have "np_ifft (map (\<lambda>x. c * x) a) ! k
        = (\<Sum>m\<leftarrow>[0..<length a]. c * (a ! m * cis (2 * pi * real k * real m / real (length a)))) / of_nat (length a)"
    using k by (simp add: np_ifft_nth)
  also have "\<dots> = c * np_ifft a ! k"
    using k by (simp only: sum_list_const_mult np_ifft_nth) simp
  finally show "np_ifft (map (\<lambda>x. c * x) a) ! k = map (\<lambda>x. c * x) (np_ifft a) ! k"
    using k by simp
qed simp

lemma round_half_even_near: "\<bar>of_int (round_half_even y) - y\<bar> \<le> 1 / 2"
proof -
  have "of_int \<lfloor>y\<rfloor> \<le> y" "y < of_int \<lfloor>y\<rfloor> + 1" by linarith+
  then show ?thesis by (auto simp: round_half_even_def Let_def)
qed


lemma float64_zero [simp]: "float64 0 = 0"
  by (simp add: float64_def)

lemma float64_error: "\<bar>float64 x - x\<bar> \<le> \<bar>x\<bar> / 2 ^ 53"
proof (cases "x = 0")
  case True
  then show ?thesis by simp
next
  case False
  define e where "e = \<lfloor>log 2 \<bar>x\<bar>\<rfloor> - 52"
  define s where "s = (2::real) powr of_int e"
  have s0: "0 < s" by (simp add: s_def)
  have fx: "float64 x = of_int (round_half_even (x / s)) * s"
    using False by (simp add: float64_def Let_def e_def s_def)
  have "float64 x - x = (of_int (round_half_even (x / s)) - x / s) * s"
    using s0 by (simp add: fx field_simps)
  then have "\<bar>float64 x - x\<bar> = \<bar>of_int (round_half_even (x / s)) - x / s\<bar> * s"
    using s0 by (simp add: abs_mult)
  also have "\<dots> \<le> (1 / 2) * s"
    using round_half_even_near[of "x / s"] s0 by (intro mult_right_mono) simp_all
  finally have b: "\<bar>float64 x - x\<bar> \<le> s / 2" by simp
  have "s * 2 ^ 52 = 2 powr (of_int e + 52)"
    by (simp add: s_def powr_add powr_numeral)
  also have "of_int e + 52 = real_of_int \<lfloor>log 2 \<bar>x\<bar>\<rfloor>" by (simp add: e_def)
  also have "2 powr real_of_int \<lfloor>log 2 \<bar>x\<bar>\<rfloor> \<le> 2 powr log 2 \<bar>x\<bar>"
    by (intro powr_mono) simp_all
  also have "\<dots> = \<bar>x\<bar>" using False by simp
  finally have "s * 2 ^ 52 \<le> \<bar>x\<bar>" .
  then have "s / 2 \<le> \<bar>x\<bar> / 2 ^ 53" by (simp add: field_simps)
  with b show ?thesis by linarith
qed


lemma float64_abs_bounds:
  "\<bar>x\<bar> * (1 - 1 / 2 ^ 53) \<le> \<bar>float64 x\<bar> \<and> \<bar>float64 x\<bar> \<le> \<bar>x\<bar> * (1 + 1 / 2 ^ 53)"
proof -
  define u :: real where "u = 1 / 2 ^ 53"
  define t where "t = \<bar>x\<bar> * u"
  have "\<bar>float64 x - x\<bar> \<le> t" using float64_error[of x] by (simp add: t_def u_def)
  then have "\<bar>x\<bar> - t \<le> \<bar>float64 x\<bar>" "\<bar>float64 x\<bar> \<le> \<bar>x\<bar> + t" by linarith+
  moreover have "\<bar>x\<bar> * (1 - u) = \<bar>x\<bar> - t" "\<bar>x\<bar> * (1 + u) = \<bar>x\<bar> + t"
    by (simp_all add: t_def algebra_simps)
  ultimately show ?thesis unfolding u_def by simp
qed

lemma float64_pos_bounds:
  assumes "0 < x"
  shows "x * (1 - 1 / 2 ^ 53) \<le> float64 x \<and> float64 x \<le> x * (1 + 1 / 2 ^ 53) \<and> 0 < float64 x"
proof -
  define u :: real where "u = 1 / 2 ^ 53"
  define t where "t = x * u"
  have u: "0 < u" "u < 1" by (simp_all add: u_def)
  have "\<bar>float64 x - x\<bar> \<le> t" using float64_error[of x] assms by (simp add: t_def u_def)
  then have b: "x - t \<le> float64 x" "float64 x \<le> x + t" by linarith+
  have e: "x * (1 - u) = x - t" "x * (1 + u) = x + t" by (simp_all add: t_def algebra_simps)
  have "0 < x * (1 - u)" using assms u by simp
  then have "0 < float64 x" using b e by linarith
  then show ?thesis using b e unfolding u_def by simp
qed

lemma bin_magnitude:
  assumes "j < n"
  shows "\<bar>(if 2 * j < n then real j else real j - real n)\<bar> = real (min j (n - j))"
    and "\<bar>(if 2 * j \<le> n then real j else real j - real n)\<bar> = real (min j (n - j))"
  using assms by (auto simp: min_def of_nat_diff)

lemma computed_val_bounds:
  assumes fps: "0 < fps" and n: "0 < n"
  defines "u \<equiv> (1::real) / 2 ^ 53"
  defines "V \<equiv> float64 (1 / float64 (real n * float64 (1 / fps)))"
  shows "fps / real n * ((1 - u) / (1 + u)\<^sup>2) \<le> V \<and> V \<le> fps / real n * ((1 + u) / (1 - u)\<^sup>2) \<and> 0 < V"
proof -
  define a where "a = 1 / fps"
  define d where "d = float64 a"
  define nd where "nd = float64 (real n * d)"
  have u: "0 < u" "u < 1" by (simp_all add: u_def)
  have a0: "0 < a" using fps by (simp add: a_def)
  have rn: "0 < real n" using n by simp
  from float64_pos_bounds[OF a0]
  have d: "a * (1 - u) \<le> d" "d \<le> a * (1 + u)" "0 < d" by (simp_all add: d_def u_def)
  have nd0: "0 < real n * d" using rn d(3) by simp
  from float64_pos_bounds[OF nd0]
  have nd: "real n * d * (1 - u) \<le> nd" "nd \<le> real n * d * (1 + u)" "0 < nd"
    by (simp_all add: nd_def u_def)
  define lo where "lo = real n * a * (1 - u)\<^sup>2"
  define hi where "hi = real n * a * (1 + u)\<^sup>2"
  have lo0: "0 < lo" using rn a0 u by (simp add: lo_def)
  have "real n * (a * (1 - u)) * (1 - u) \<le> real n * d * (1 - u)"
    using d(1) rn u by (intro mult_right_mono mult_left_mono) simp_all
  then have lo: "lo \<le> nd" using nd(1) by (simp add: lo_def power2_eq_square mult.assoc)
  have "real n * d * (1 + u) \<le> real n * (a * (1 + u)) * (1 + u)"
    using d(2) rn u by (intro mult_right_mono mult_left_mono) simp_all
  then have hi: "nd \<le> hi" using nd(2) by (simp add: hi_def power2_eq_square mult.assoc)
  have q0: "0 < 1 / nd" using nd(3) by simp
  from float64_pos_bounds[OF q0]
  have V: "1 / nd * (1 - u) \<le> V" "V \<le> 1 / nd * (1 + u)" "0 < V"
    by (simp_all add: V_def nd_def d_def a_def u_def)
  have "1 / hi \<le> 1 / nd" using hi nd(3) by (simp add: frac_le)
  then have "1 / hi * (1 - u) \<le> 1 / nd * (1 - u)" using u by (intro mult_right_mono) simp_all
  then have l: "1 / hi * (1 - u) \<le> V" using V(1) by linarith
  have "1 / nd \<le> 1 / lo" using lo lo0 by (simp add: frac_le)
  then have "1 / nd * (1 + u) \<le> 1 / lo * (1 + u)" using u by (intro mult_right_mono) simp_all
  then have h: "V \<le> 1 / lo * (1 + u)" using V(2) by linarith
  have "1 / hi * (1 - u) = fps / real n * ((1 - u) / (1 + u)\<^sup>2)"
    using fps rn by (simp add: hi_def a_def)
  moreover have "1 / lo * (1 + u) = fps / real n * ((1 + u) / (1 - u)\<^sup>2)"
    using fps rn by (simp add: lo_def a_def)
  ultimately show ?thesis using l h V(3) by simp
qed

lemma margin_numbers:
  "(1::real) - edge_margin \<le> (1 - 1 / 2 ^ 53) * ((1 - 1 / 2 ^ 53) / (1 + 1 / 2 ^ 53)\<^sup>2)"
  "(1 + 1 / 2 ^ 53) * ((1 + 1 / 2 ^ 53) / (1 - 1 / 2 ^ 53)\<^sup>2) \<le> (1::real) + edge_margin"
  by (simp_all add: edge_margin_def power2_eq_square)

lemma computed_frequency_close:
  assumes fps: "0 < fps" and j: "j < n"
  shows "spec_abs_frequency n fps j * (1 - edge_margin) \<le> computed_abs_frequency n fps j
       \<and> computed_abs_frequency n fps j \<le> spec_abs_frequency n fps j * (1 + edge_margin)"
proof -
  define u :: real where "u = 1 / 2 ^ 53"
  define V where "V = float64 (1 / float64 (real n * float64 (1 / fps)))"
  define K where "K = real (min j (n - j))"
  define g where "g = fps / real n"
  have n: "0 < n" using j by simp
  have u: "0 < u" "u < 1" by (simp_all add: u_def)
  have g0: "0 < g" using fps n by (simp add: g_def)
  have K0: "0 \<le> K" by (simp add: K_def)
  from computed_val_bounds[OF fps n]
  have V: "g * ((1 - u) / (1 + u)\<^sup>2) \<le> V" "V \<le> g * ((1 + u) / (1 - u)\<^sup>2)" "0 < V"
    by (simp_all add: V_def u_def g_def)
  have A: "spec_abs_frequency n fps j = K * g"
    using bin_magnitude(2)[OF j] fps n
    by (simp add: spec_abs_frequency_def K_def g_def abs_mult abs_divide del: of_nat_min)
  have "computed_abs_frequency n fps j
        = \<bar>float64 ((if 2 * j < n then real j else real j - real n) * V)\<bar>"
    by (simp add: computed_abs_frequency_def V_def)
  moreover have "\<bar>(if 2 * j < n then real j else real j - real n) * V\<bar> = K * V"
    using bin_magnitude(1)[OF j] V(3) by (simp add: abs_mult K_def del: of_nat_min)
  ultimately have C: "K * V * (1 - u) \<le> computed_abs_frequency n fps j"
      "computed_abs_frequency n fps j \<le> K * V * (1 + u)"
    using float64_abs_bounds[of "(if 2 * j < n then real j else real j - real n) * V"]
    by (simp_all add: u_def)
  have "K * (g * ((1 - u) / (1 + u)\<^sup>2)) * (1 - u) \<le> K * V * (1 - u)"
    using V(1) K0 u by (intro mult_right_mono mult_left_mono) simp_all
  moreover have "K * g * (1 - edge_margin) \<le> K * g * ((1 - u) * ((1 - u) / (1 + u)\<^sup>2))"
    using margin_numbers(1) K0 g0 unfolding u_def by (intro mult_left_mono) simp_all
  ultimately have lower: "K * g * (1 - edge_margin) \<le> computed_abs_frequency n fps j"
    using C(1) by (simp add: mult_ac)
  have "K * V * (1 + u) \<le> K * (g * ((1 + u) / (1 - u)\<^sup>2)) * (1 + u)"
    using V(2) K0 u by (intro mult_right_mono mult_left_mono) simp_all
  moreover have "K * g * ((1 + u) * ((1 + u) / (1 - u)\<^sup>2)) \<le> K * g * (1 + edge_margin)"
    using margin_numbers(2) K0 g0 unfolding u_def by (intro mult_left_mono) simp_all
  ultimately have upper: "computed_abs_frequency n fps j \<le> K * g * (1 + edge_margin)"
    using C(2) by (simp add: mult_ac)
  show ?thesis using lower upper by (simp add: A)
qed

lemma length_fftfreq: "0 < n \<Longrightarrow> length (fftfreq n d) = n"
  by (simp add: fftfreq_def Let_def)

lemma fftfreq_nth:
  assumes "j < n"
  shows "fftfreq n d ! j
         = float64 ((if 2 * j < n then real j else real j - real n)
                    * float64 (1 / float64 (real n * d)))"
proof -
  define N where "N = (n - 1) div 2 + 1"
  define xs where "xs = map int [0..<N] @ [- int (n div 2)..- 1]"
  have eq: "fftfreq n d
            = map (\<lambda>i. float64 (real_of_int i * float64 (1 / float64 (real n * d)))) xs"
    by (simp add: fftfreq_def Let_def N_def xs_def)
  have N: "j < N \<longleftrightarrow> 2 * j < n" using assms unfolding N_def by arith
  have Nn: "N + n div 2 = n" using assms unfolding N_def by arith
  have len: "length xs = n" using Nn by (simp add: xs_def)
  have "xs ! j = (if 2 * j < n then int j else int j - int n)"
  proof (cases "2 * j < n")
    case True
    then have "j < N" using N by simp
    then show ?thesis using True by (simp add: xs_def nth_append)
  next
    case False
    then have jN: "\<not> j < N" using N by simp
    have idx: "int (j - N) \<le> - 1 - (- int (n div 2))" "- int (n div 2) + int (j - N) = int j - int n"
      using assms jN Nn by linarith+
    have "[- int (n div 2)..- 1] ! (j - N) = - int (n div 2) + int (j - N)"
      using idx(1) by (simp add: nth_upto)
    then show ?thesis using False jN idx(2) by (simp add: xs_def nth_append)
  qed
  then show ?thesis using assms len by (simp add: eq)
qed

lemma fftfreq_abs:
  assumes "j < n"
  shows "\<bar>fftfreq n (float64 (1 / fps)) ! j\<bar> = computed_abs_frequency n fps j"
  using assms by (simp add: fftfreq_nth computed_abs_frequency_def)

lemma length_along_axis0 [simp]: "length (along_axis0 f w m) = length m"
  by (simp add: along_axis0_def Let_def)

lemma along_axis0_nth:
  "t < length m \<Longrightarrow> along_axis0 f w m ! t = map (\<lambda>p. f (column m p) ! t) [0..<w]"
  by (simp add: along_axis0_def Let_def)

lemma along_axis0_rows: "list_all (\<lambda>s. length s = w) (along_axis0 f w m)"
  by (simp add: along_axis0_def Let_def list_all_iff)

lemma length_column [simp]: "length (column m p) = length m"
  by (simp add: column_def)

lemma column_along_axis0:
  assumes "p < w" "length (f (column m p)) = length m"
  shows "column (along_axis0 f w m) p = f (column m p)"
proof (rule nth_equalityI)
  show "length (column (along_axis0 f w m) p) = length (f (column m p))" using assms by simp
next
  fix t assume "t < length (column (along_axis0 f w m) p)"
  then have t: "t < length m" by simp
  then show "column (along_axis0 f w m) p ! t = f (column m p) ! t"
    using assms(1) by (simp add: column_def along_axis0_nth)
qed

lemma column_map_map:
  assumes "list_all (\<lambda>s. length s = w) m" "p < w"
  shows "column (map (map g) m) p = map g (column m p)"
  using assms by (induction m) (simp_all add: column_def)

lemma length_apply_mask:
  "length freq_mask = length F \<Longrightarrow> length (apply_mask freq_mask F) = length F"
  by (simp add: apply_mask_def)

lemma column_apply_mask:
  assumes "list_all (\<lambda>s. length s = w) F" "p < w"
  shows "column (apply_mask freq_mask F) p = map2 (\<lambda>keep X. if keep then X else 0) freq_mask (column F p)"
  using assms
proof (induction freq_mask arbitrary: F)
  case Nil
  then show ?case by (simp add: apply_mask_def column_def)
next
  case (Cons b bs)
  then show ?case by (cases F) (auto simp: apply_mask_def column_def)
qed

lemma temporal_bandpass_filter_series:
  assumes wf: "wf_volume V" and ne: "slices V \<noteq> []" and fps: "fps \<noteq> 0"
  shows "temporal_bandpass_filter V fps lo hi =
         Inr (V\<lparr>slices := map (\<lambda>t. map (\<lambda>p. filter_series fps lo hi (column (slices V) p) ! t)
                                    [0..<width V])
                            [0..<length (slices V)]\<rparr>)"
proof -
  define n where "n = length (slices V)"
  define w where "w = width V"
  define C where "C = map (map complex_of_real) (slices V)"
  define freq_mask where "freq_mask = map (\<lambda>f. \<bar>f\<bar> \<ge> lo \<and> \<bar>f\<bar> \<le> hi) (fftfreq n (float64 (1 / fps)))"
  define F where "F = along_axis0 np_fft w C"
  define G where "G = apply_mask freq_mask F"
  define R where "R = along_axis0 np_ifft w G"
  have n0: "0 < n" using ne by (simp add: n_def)
  have rows: "list_all (\<lambda>s. length s = w) (slices V)" using wf by (simp add: wf_volume_def w_def)
  have lenC: "length C = n" by (simp add: C_def n_def)
  have lenF: "length F = n" by (simp add: F_def lenC)
  have lenm: "length freq_mask = n" using n0 by (simp add: freq_mask_def length_fftfreq)
  have lenG: "length G = n" by (simp add: G_def length_apply_mask lenm lenF)
  have rowsF: "list_all (\<lambda>s. length s = w) F" unfolding F_def by (rule along_axis0_rows)
  have tbf: "temporal_bandpass_filter V fps lo hi = Inr (V\<lparr>slices := map (map Re) R\<rparr>)"
    using ne fps
    by (simp add: temporal_bandpass_filter_def Let_def R_def G_def F_def C_def freq_mask_def n_def w_def)
  have entry: "map (map Re) R ! t = map (\<lambda>p. filter_series fps lo hi (column (slices V) p) ! t) [0..<w]"
    if t: "t < n" for t
  proof -
    have "map (map Re) R ! t = map Re (R ! t)" using t lenG by (simp add: R_def)
    also have "R ! t = map (\<lambda>p. np_ifft (column G p) ! t) [0..<w]"
      using t lenG by (simp add: R_def along_axis0_nth)
    also have "map Re \<dots> = map (\<lambda>p. Re (np_ifft (column G p) ! t)) [0..<w]" by simp
    also have "\<dots> = map (\<lambda>p. filter_series fps lo hi (column (slices V) p) ! t) [0..<w]"
    proof (rule map_cong[OF refl])
      fix p assume "p \<in> set [0..<w]"
      then have p: "p < w" by simp
      have cC: "column C p = map complex_of_real (column (slices V) p)"
        unfolding C_def by (rule column_map_map[OF rows p])
      have cF: "column F p = np_fft (column C p)"
        unfolding F_def by (rule column_along_axis0[OF p]) simp
      have cG: "column G p = map2 (\<lambda>keep X. if keep then X else 0) freq_mask (column F p)"
        unfolding G_def by (rule column_apply_mask[OF rowsF p])
      have "length (column G p) = n" by (simp add: lenG)
      then have "Re (np_ifft (column G p) ! t) = map Re (np_ifft (column G p)) ! t"
        using t by simp
      also have "map Re (np_ifft (column G p)) = filter_series fps lo hi (column (slices V) p)"
        by (simp add: filter_series_def cG cF cC freq_mask_def n_def)
      finally show "Re (np_ifft (column G p) ! t) = filter_series fps lo hi (column (slices V) p) ! t" .
    qed
    finally show ?thesis .
  qed
  have "map (map Re) R = map (\<lambda>t. map (\<lambda>p. filter_series fps lo hi (column (slices V) p) ! t) [0..<w]) [0..<n]"
  proof (rule nth_equalityI)
    show "length (map (map Re) R) = length (map (\<lambda>t. map (\<lambda>p. filter_series fps lo hi (column (slices V) p) ! t) [0..<w]) [0..<n])"
      by (simp add: R_def lenG)
  next
    fix t assume "t < length (map (map Re) R)"
    then have t: "t < n" by (simp add: R_def lenG)
    show "map (map Re) R ! t = map (\<lambda>t. map (\<lambda>p. filter_series fps lo hi (column (slices V) p) ! t) [0..<w]) [0..<n] ! t"
      using entry[OF t] t by simp
  qed
  then show ?thesis by (simp add: tbf n_def w_def)
qed

lemma filter_series_float:
  assumes "x \<noteq> []"
  shows "filter_series fps lo hi x = float_bandpass_series fps lo hi x"
proof -
  define n where "n = length x"
  define X where "X = np_fft (map complex_of_real x)"
  have n0: "0 < n" using assms by (simp add: n_def)
  have lenX: "length X = n" by (simp add: X_def n_def)
  have "map2 (\<lambda>keep X. if keep then X else 0)
          (map (\<lambda>f. \<bar>f\<bar> \<ge> lo \<and> \<bar>f\<bar> \<le> hi) (fftfreq n (float64 (1 / fps)))) X
        = map (\<lambda>j. if lo \<le> computed_abs_frequency n fps j \<and> computed_abs_frequency n fps j \<le> hi
                     then X ! j else 0) [0..<n]"
  proof (rule nth_equalityI)
    show "length (map2 (\<lambda>keep X. if keep then X else 0)
          (map (\<lambda>f. \<bar>f\<bar> \<ge> lo \<and> \<bar>f\<bar> \<le> hi) (fftfreq n (float64 (1 / fps)))) X)
        = length (map (\<lambda>j. if lo \<le> computed_abs_frequency n fps j
                               \<and> computed_abs_frequency n fps j \<le> hi
                     then X ! j else 0) [0..<n])"
      using n0 by (simp add: length_fftfreq lenX)
  next
    fix j assume "j < length (map2 (\<lambda>keep X. if keep then X else 0)
          (map (\<lambda>f. \<bar>f\<bar> \<ge> lo \<and> \<bar>f\<bar> \<le> hi) (fftfreq n (float64 (1 / fps)))) X)"
    then have j: "j < n" using n0 by (simp add: length_fftfreq lenX)
    have "\<bar>fftfreq n (float64 (1 / fps)) ! j\<bar> = computed_abs_frequency n fps j"
      by (rule fftfreq_abs[OF j])
    then show "map2 (\<lambda>keep X. if keep then X else 0)
          (map (\<lambda>f. \<bar>f\<bar> \<ge> lo \<and> \<bar>f\<bar> \<le> hi) (fftfreq n (float64 (1 / fps)))) X ! j
        = map (\<lambda>j. if lo \<le> computed_abs_frequency n fps j \<and> computed_abs_frequency n fps j \<le> hi
                     then X ! j else 0) [0..<n] ! j"
      using j n0 by (simp add: length_fftfreq lenX)
  qed
  then show ?thesis
    unfolding filter_series_def float_bandpass_series_def Let_def n_def X_def by simp
qed

lemma clear_band_tests:
  assumes "0 < fps" "j < n" "clear_of_edges n fps lo hi"
  shows "(lo \<le> computed_abs_frequency n fps j \<and> computed_abs_frequency n fps j \<le> hi)
         \<longleftrightarrow> (lo \<le> spec_abs_frequency n fps j \<and> spec_abs_frequency n fps j \<le> hi)"
proof -
  define A where "A = spec_abs_frequency n fps j"
  define C where "C = computed_abs_frequency n fps j"
  have A0: "0 \<le> A" by (simp add: A_def spec_abs_frequency_def)
  have e: "0 < edge_margin" "edge_margin < 1" by (simp_all add: edge_margin_def)
  from computed_frequency_close[OF assms(1,2)]
  have C: "A * (1 - edge_margin) \<le> C" "C \<le> A * (1 + edge_margin)" by (simp_all add: A_def C_def)
  have "A * (1 - edge_margin) \<le> A * 1" "A * 1 \<le> A * (1 + edge_margin)"
    using A0 e by (intro mult_left_mono; simp)+
  then have A: "A * (1 - edge_margin) \<le> A" "A \<le> A * (1 + edge_margin)" by simp_all
  from assms(2,3)
  have "(A * (1 + edge_margin) < lo \<or> lo \<le> A * (1 - edge_margin))
      \<and> (A * (1 + edge_margin) \<le> hi \<or> hi < A * (1 - edge_margin))"
    by (simp add: clear_of_edges_def list_all_iff A_def)
  then have "(lo \<le> C \<and> C \<le> hi) \<longleftrightarrow> (lo \<le> A \<and> A \<le> hi)"
    using C A by linarith
  then show ?thesis by (simp add: A_def C_def)
qed

lemma float_series_is_spec:
  assumes "0 < fps" "clear_of_edges (length x) fps lo hi"
  shows "float_bandpass_series fps lo hi x = spec_bandpass_series fps lo hi x"
proof -
  have "map (\<lambda>j. if lo \<le> computed_abs_frequency (length x) fps j
                     \<and> computed_abs_frequency (length x) fps j \<le> hi
                  then np_fft (map complex_of_real x) ! j else 0) [0..<length x]
        = map (\<lambda>j. if lo \<le> spec_abs_frequency (length x) fps j
                     \<and> spec_abs_frequency (length x) fps j \<le> hi
                  then np_fft (map complex_of_real x) ! j else 0) [0..<length x]"
    by (rule map_cong[OF refl]) (simp add: clear_band_tests[OF assms(1) _ assms(2)])
  then show ?thesis
    unfolding float_bandpass_series_def spec_bandpass_series_def Let_def
    by (rule arg_cong[where f = "\<lambda>Y. map Re (np_ifft Y)"])
qed

lemma fftfreq_0: "0 < n \<Longrightarrow> fftfreq n d ! 0 = 0"
  by (simp add: fftfreq_nth)

lemma filter_series_const_dc:
  assumes "0 < lo"
  shows "filter_series fps lo hi (replicate n c) = replicate n 0"
proof (cases "n = 0")
  case True
  then show ?thesis by (simp add: filter_series_def np_fft_def np_ifft_def)
next
  case False
  then have n0: "0 < n" by simp
  define ms where "ms = map (\<lambda>f. \<bar>f\<bar> \<ge> lo \<and> \<bar>f\<bar> \<le> hi) (fftfreq n (float64 (1 / fps)))"
  define X where "X = map (\<lambda>k. if k = 0 then of_nat n * complex_of_real c else 0) [0..<n]"
  have lenms: "length ms = n" using n0 by (simp add: ms_def length_fftfreq)
  have lenX: "length X = n" by (simp add: X_def)
  have ms0: "\<not> ms ! 0" using n0 assms by (simp add: ms_def length_fftfreq fftfreq_0)
  have fs: "filter_series fps lo hi (replicate n c) = map Re (np_ifft (map2 (\<lambda>keep X. if keep then X else 0) ms X))"
    by (simp add: filter_series_def ms_def X_def np_fft_replicate)
  have "map2 (\<lambda>keep X. if keep then X else 0) ms X = replicate n 0"
  proof (rule nth_equalityI)
    show "length (map2 (\<lambda>keep X. if keep then X else 0) ms X) = length (replicate n (0::complex))"
      by (simp add: lenms lenX)
  next
    fix j assume "j < length (map2 (\<lambda>keep X. if keep then X else 0) ms X)"
    then have j: "j < n" by (simp add: lenms lenX)
    show "map2 (\<lambda>keep X. if keep then X else 0) ms X ! j = replicate n 0 ! j"
      using j ms0 by (cases "j = 0") (simp_all add: lenms lenX, simp_all add: X_def)
  qed
  then show ?thesis
    by (simp add: fs np_ifft_zero)
qed

lemma filter_series_const_keep:
  assumes "fps \<noteq> 0" "0 \<le> hi"
  shows "filter_series fps 0 hi (replicate n c) = replicate n c"
proof (cases "n = 0")
  case True
  then show ?thesis by (simp add: filter_series_def np_fft_def np_ifft_def)
next
  case False
  then have n0: "0 < n" by simp
  define ms where "ms = map (\<lambda>f. \<bar>f\<bar> \<ge> 0 \<and> \<bar>f\<bar> \<le> hi) (fftfreq n (float64 (1 / fps)))"
  define X where "X = map (\<lambda>k. if k = 0 then of_nat n * complex_of_real c else 0) [0..<n]"
  have lenms: "length ms = n" using n0 by (simp add: ms_def length_fftfreq)
  have lenX: "length X = n" by (simp add: X_def)
  have ms0: "ms ! 0" using n0 assms by (simp add: ms_def length_fftfreq fftfreq_0)
  have fs: "filter_series fps 0 hi (replicate n c) = map Re (np_ifft (map2 (\<lambda>keep X. if keep then X else 0) ms X))"
    by (simp add: filter_series_def ms_def X_def np_fft_replicate)
  have "map2 (\<lambda>keep X. if keep then X else 0) ms X = X"
  proof (rule nth_equalityI)
    show "length (map2 (\<lambda>keep X. if keep then X else 0) ms X) = length X"
      by (simp add: lenms lenX)
  next
    fix j assume "j < length (map2 (\<lambda>keep X. if keep then X else 0) ms X)"
    then have j: "j < n" by (simp add: lenms lenX)
    show "map2 (\<lambda>keep X. if keep then X else 0) ms X ! j = X ! j"
      using j ms0 by (cases "j = 0") (simp_all add: lenms lenX, simp_all add: X_def)
  qed
  then have "filter_series fps 0 hi (replicate n c) = map Re (np_ifft X)"
    by (simp add: fs)
  also have "np_ifft X = replicate n (complex_of_real c)"
    unfolding X_def by (rule np_ifft_dc)
  finally show ?thesis by simp
qed

lemma map2_mask_scale:
  "map2 (\<lambda>keep X. if keep then X else 0) ms (map (\<lambda>x. (c::complex) * x) X)
   = map (\<lambda>x. c * x) (map2 (\<lambda>keep X. if keep then X else 0) ms X)"
proof (induction ms arbitrary: X)
  case Nil
  then show ?case by simp
next
  case (Cons b bs)
  then show ?case by (cases X) simp_all
qed

lemma filter_series_scale:
  "filter_series fps lo hi (map (\<lambda>x. c * x) x) = map (\<lambda>x. c * x) (filter_series fps lo hi x)"
proof -
  have "map complex_of_real (map (\<lambda>x. c * x) x) = map (\<lambda>z. complex_of_real c * z) (map complex_of_real x)"
    by simp
  then show ?thesis
    by (simp only: filter_series_def length_map np_fft_scale map2_mask_scale np_ifft_scale)
       (simp add: o_def)
qed

lemma column_eq_Nil [simp]: "column m p = [] \<longleftrightarrow> m = []"
  by (simp add: column_def)

lemma length_filter_series [simp]: "x \<noteq> [] \<Longrightarrow> length (filter_series fps lo hi x) = length x"
  by (simp add: filter_series_def length_fftfreq)

lemma temporal_bandpass_filter_Inl:
  "temporal_bandpass_filter V fps lo hi = Inl e \<longleftrightarrow>
     (if slices V = [] then e = ValueError else fps = 0 \<and> e = ZeroDivisionError)"
  by (auto simp: temporal_bandpass_filter_def Let_def)

lemma bandpass_is_float:
  assumes "wf_volume V" "slices V \<noteq> []" "fps \<noteq> 0"
  shows "temporal_bandpass_filter V fps lo hi = Inr (float_bandpass V fps lo hi)"
  using assms(2)
  by (simp add: temporal_bandpass_filter_series[OF assms] float_bandpass_def filter_series_float)

lemma float_bandpass_is_spec:
  assumes "0 < fps" "clear_of_edges (length (slices V)) fps lo hi"
  shows "float_bandpass V fps lo hi = spec_bandpass V fps lo hi"
  using assms by (simp add: float_bandpass_def spec_bandpass_def float_series_is_spec)


lemma spec_bandpass_shape:
  "vrows (spec_bandpass V fps lo hi) = vrows V \<and> vcols (spec_bandpass V fps lo hi) = vcols V
   \<and> vchans (spec_bandpass V fps lo hi) = vchans V
   \<and> length (slices (spec_bandpass V fps lo hi)) = length (slices V)
   \<and> wf_volume (spec_bandpass V fps lo hi)"
  by (simp add: spec_bandpass_def wf_volume_def width_def list_all_iff)

lemma constant_slices:
  assumes "constant_in_time V"
  shows "slices V = replicate (length (slices V)) (hd (slices V))"
proof -
  have "\<forall>s \<in> set (slices V). s = hd (slices V)"
    using assms by (simp add: constant_in_time_def list_all_iff)
  then show ?thesis by (simp add: replicate_length_same)
qed

lemma column_replicate: "column (replicate n s) p = replicate n (s ! p)"
  by (simp add: column_def)

lemma constant_filter_dc:
  assumes wf: "wf_volume V" and ne: "slices V \<noteq> []" and const: "constant_in_time V"
      and fps: "fps \<noteq> 0" and lo: "0 < lo"
  shows "temporal_bandpass_filter V fps lo hi = Inr (zeros_like V)"
proof -
  define n where "n = length (slices V)"
  define h where "h = hd (slices V)"
  have sl: "slices V = replicate n h" unfolding n_def h_def by (rule constant_slices[OF const])
  have n0: "0 < n" using ne by (simp add: n_def)
  have lenh: "length h = width V" using wf n0 by (simp add: wf_volume_def sl list_all_iff)
  have "map (\<lambda>t. map (\<lambda>p. filter_series fps lo hi (column (slices V) p) ! t) [0..<width V]) [0..<n]
        = map (\<lambda>t. map (\<lambda>p. 0) [0..<width V]) [0..<n]"
    by (rule map_cong[OF refl]) (simp add: sl column_replicate filter_series_const_dc[OF lo])
  also have "\<dots> = replicate n (replicate (width V) 0)"
    by (simp add: map_replicate_const)
  also have "\<dots> = map (map (\<lambda>_. 0)) (slices V)"
    by (simp add: sl map_replicate_const lenh)
  finally show ?thesis
    by (simp add: temporal_bandpass_filter_series[OF wf ne fps] zeros_like_def n_def)
qed

lemma constant_filter_keep:
  assumes wf: "wf_volume V" and ne: "slices V \<noteq> []" and const: "constant_in_time V"
      and fps: "fps \<noteq> 0" and hi: "0 \<le> hi"
  shows "temporal_bandpass_filter V fps 0 hi = Inr V"
proof -
  define n where "n = length (slices V)"
  define h where "h = hd (slices V)"
  have sl: "slices V = replicate n h" unfolding n_def h_def by (rule constant_slices[OF const])
  have n0: "0 < n" using ne by (simp add: n_def)
  have lenh: "length h = width V" using wf n0 by (simp add: wf_volume_def sl list_all_iff)
  have "map (\<lambda>t. map (\<lambda>p. filter_series fps 0 hi (column (slices V) p) ! t) [0..<width V]) [0..<n]
        = map (\<lambda>t. map (\<lambda>p. h ! p) [0..<width V]) [0..<n]"
    by (rule map_cong[OF refl]) (simp add: sl column_replicate filter_series_const_keep[OF fps hi])
  also have "map (\<lambda>p. h ! p) [0..<width V] = h"
    unfolding lenh[symmetric] by (rule map_nth)
  also have "map (\<lambda>t. h) [0..<n] = slices V"
    by (simp add: sl map_replicate_const)
  finally show ?thesis
    by (simp add: temporal_bandpass_filter_series[OF wf ne fps] n_def)
qed

lemma wf_scale: "wf_volume V \<Longrightarrow> wf_volume (scale c V)"
  by (simp add: wf_volume_def scale_def width_def list_all_iff)

lemma bandpass_scale:
  assumes wf: "wf_volume V"
  shows "temporal_bandpass_filter (scale c V) fps lo hi
         = map_sum id (scale c) (temporal_bandpass_filter V fps lo hi)"
proof (cases "slices V = [] \<or> fps = 0")
  case True
  then show ?thesis by (auto simp: temporal_bandpass_filter_def Let_def scale_def)
next
  case False
  then have ne: "slices V \<noteq> []" and fps: "fps \<noteq> 0" by simp_all
  have ne': "slices (scale c V) \<noteq> []" using ne by (simp add: scale_def)
  have rows: "list_all (\<lambda>s. length s = width V) (slices V)" using wf by (simp add: wf_volume_def)
  have "map (\<lambda>t. map (\<lambda>p. filter_series fps lo hi (column (map (map (\<lambda>x. c * x)) (slices V)) p) ! t)
                    [0..<width V]) [0..<length (slices V)]
        = map (\<lambda>t. map (\<lambda>p. c * filter_series fps lo hi (column (slices V) p) ! t)
                    [0..<width V]) [0..<length (slices V)]"
  proof (rule map_cong[OF refl], rule map_cong[OF refl])
    fix t p assume "t \<in> set [0..<length (slices V)]" "p \<in> set [0..<width V]"
    then have t: "t < length (slices V)" and p: "p < width V" by simp_all
    have "column (map (map (\<lambda>x. c * x)) (slices V)) p = map (\<lambda>x. c * x) (column (slices V) p)"
      by (rule column_map_map[OF rows p])
    then show "filter_series fps lo hi (column (map (map (\<lambda>x. c * x)) (slices V)) p) ! t
               = c * filter_series fps lo hi (column (slices V) p) ! t"
      using t ne by (simp add: filter_series_scale)
  qed
  then show ?thesis
    by (simp add: temporal_bandpass_filter_series[OF wf_scale[OF wf] ne' fps]
                  temporal_bandpass_filter_series[OF wf ne fps])
       (simp add: scale_def width_def o_def)
qed

lemma amplify_double: "amplify F (2 * alpha) = scale 2 (amplify F alpha)"
  by (simp add: amplify_def scale_def o_def algebra_simps)


lemma cis_minus_pi: "cis (- pi) = - 1"
  by (simp add: complex_eq_iff)























lemma spec_series_two:
  "spec_bandpass_series 30 5 20 [a, b] = [(a - b) / 2, (b - a) / 2]"
proof -
  have "[0..<2] = [0, 1]" by (simp add: upt_rec)
  then show ?thesis
    by (simp add: spec_bandpass_series_def spec_abs_frequency_def np_fft_def np_ifft_def Let_def
          cis_minus_pi)
qed

lemma clear_two_bins: "clear_of_edges 2 30 5 20"
proof -
  have "[0..<2] = [0, 1]" by (simp add: upt_rec)
  then show ?thesis
    by (simp add: clear_of_edges_def spec_abs_frequency_def edge_margin_def)
qed





text \<open>
  Claim C5 (DC rejection). A well-formed volume with at least one time sample
  that is the same at every time, filtered with \<open>lowFreqHz > 0\<close> at a non-zero
  frame rate, comes back as the volume of zeros of the same shape: bin 0 is
  outside the band, and the other bins of a constant series are zero.
\<close>

theorem dc_rejection:
  assumes "wf_volume V" "slices V \<noteq> []" "constant_in_time V" "fps \<noteq> 0" "0 < low_freq"
  shows "temporal_bandpass_filter V fps low_freq high_freq = Inr (zeros_like V)"
  using assms by (rule constant_filter_dc)

text \<open>Claim C5 at \<open>constant_volume\<close> with the band \<open>[1, 2]\<close>.\<close>

theorem dc_rejection_witness:
  "wf_volume constant_volume \<and> slices constant_volume \<noteq> [] \<and> constant_in_time constant_volume
   \<and> (30::real) \<noteq> 0 \<and> (0::real) < 1
   \<and> temporal_bandpass_filter constant_volume 30 1 2
       = Inr (zeros_like constant_volume)
   \<and> slices (zeros_like constant_volume)
       = [[0, 0, 0, 0, 0, 0], [0, 0, 0, 0, 0, 0], [0, 0, 0, 0, 0, 0]]"
proof -
  have h: "wf_volume constant_volume" "slices constant_volume \<noteq> []"
    "constant_in_time constant_volume" "(30::real) \<noteq> 0" "(0::real) < 1"
    by (simp_all add: constant_volume_def wf_volume_def width_def constant_in_time_def)
  have z: "slices (zeros_like constant_volume)
           = [[0, 0, 0, 0, 0, 0], [0, 0, 0, 0, 0, 0], [0, 0, 0, 0, 0, 0]]"
    by (simp add: zeros_like_def constant_volume_def)
  show ?thesis using h dc_rejection[OF h, of 2] by (simp add: z)
qed

text \<open>
  Claim C6 (linearity). The filter is linear in its input: filtering a
  well-formed volume scaled by \<open>c\<close> gives \<open>c\<close> times the filtered volume (and
  the same error when the filter fails). Amplification multiplies every entry
  by \<open>alpha\<close>: it commutes with scaling, and doubling \<open>alpha\<close> doubles every
  entry.
\<close>

theorem filter_and_amplify_linear:
  assumes "wf_volume V"
  shows "temporal_bandpass_filter (scale c V) fps lo hi
           = map_sum id (scale c) (temporal_bandpass_filter V fps lo hi)
       \<and> slices (amplify F alpha) = map (map (\<lambda>x. x * alpha)) (slices F)
       \<and> amplify (scale c F) alpha = scale c (amplify F alpha)
       \<and> amplify F (2 * alpha) = scale 2 (amplify F alpha)"
proof -
  have "amplify (scale c F) alpha = scale c (amplify F alpha)"
    by (simp add: amplify_def scale_def o_def mult.assoc)
  then show ?thesis
    using bandpass_scale[OF assms] amplify_double by (simp add: amplify_def)
qed

text \<open>Claim C6 at \<open>varying_volume\<close> scaled by 3 and amplified by 10 and by 20.\<close>

theorem filter_and_amplify_linear_witness:
  "wf_volume varying_volume
   \<and> temporal_bandpass_filter (scale 3 varying_volume) 30 5 20
        = map_sum id (scale 3) (temporal_bandpass_filter varying_volume 30 5 20)
   \<and> amplify varying_volume (2 * 10) = scale 2 (amplify varying_volume 10)"
proof -
  have h: "wf_volume varying_volume"
    by (simp add: varying_volume_def wf_volume_def width_def)
  show ?thesis
    using h filter_and_amplify_linear[OF h, where c = 3 and fps = 30 and lo = 5 and hi = 20
        and F = varying_volume and alpha = 10]
    by simp
qed

text \<open>
  Claim C8 says that the filter fails on a volume with fewer than two time
  samples. A volume with a single time sample is filtered like any other: here
  its only bin, at frequency 0, is outside the band and the result is zero.
\<close>

theorem single_frame_is_filtered_counterexample:
  "length (slices single_frame_volume) = 1
   \<and> temporal_bandpass_filter single_frame_volume 30 1 2
       = Inr \<lparr>vrows = 1, vcols = 1, vchans = 3, slices = [[0, 0, 0]]\<rparr>"
proof -
  have h: "wf_volume single_frame_volume" "slices single_frame_volume \<noteq> []"
    "constant_in_time single_frame_volume" "(30::real) \<noteq> 0" "(0::real) < 1"
    by (simp_all add: single_frame_volume_def wf_volume_def width_def constant_in_time_def)
  have z: "zeros_like single_frame_volume
           = \<lparr>vrows = 1, vcols = 1, vchans = 3, slices = [[0, 0, 0]]\<rparr>"
    by (simp add: zeros_like_def single_frame_volume_def)
  show ?thesis using constant_filter_dc[OF h, of 2] by (simp add: z) (simp add: single_frame_volume_def)
qed

text \<open>
  Claim C8, amended. The filter has no check on the number of time samples.
  It fails exactly in two cases: on a volume without time samples, with the
  \<^verbatim>\<open>ValueError\<close> of \<^verbatim>\<open>np.fft.fft\<close>, and otherwise when the frame rate is zero,
  with \<^verbatim>\<open>ZeroDivisionError\<close>. For every volume with at least one time sample
  and a non-zero frame rate it returns a volume with as many time samples.
\<close>

theorem bandpass_failure:
  "(temporal_bandpass_filter V fps lo hi = Inl e
      \<longleftrightarrow> (if slices V = [] then e = ValueError else fps = 0 \<and> e = ZeroDivisionError))
   \<and> (slices V \<noteq> [] \<and> fps \<noteq> 0 \<longrightarrow>
        (\<exists>F. temporal_bandpass_filter V fps lo hi = Inr F
              \<and> length (slices F) = length (slices V)))"
proof -
  have "\<exists>F. temporal_bandpass_filter V fps lo hi = Inr F \<and> length (slices F) = length (slices V)"
    if "slices V \<noteq> []" "fps \<noteq> 0"
    using that by (simp add: temporal_bandpass_filter_def Let_def length_apply_mask length_fftfreq)
  then show ?thesis using temporal_bandpass_filter_Inl by blast
qed

text \<open>Claim C8, amended, at a volume without time samples and at \<open>single_frame_volume\<close>.\<close>

theorem bandpass_failure_witness:
  "temporal_bandpass_filter (single_frame_volume\<lparr>slices := []\<rparr>) 30 1 2 = Inl ValueError
   \<and> temporal_bandpass_filter single_frame_volume 0 1 2 = Inl ZeroDivisionError
   \<and> (\<exists>F. temporal_bandpass_filter single_frame_volume 30 1 2 = Inr F
           \<and> length (slices F) = length (slices single_frame_volume))"
  using bandpass_failure[of "single_frame_volume\<lparr>slices := []\<rparr>" 30 1 2 ValueError]
        bandpass_failure[of single_frame_volume 0 1 2 ZeroDivisionError]
        bandpass_failure[of single_frame_volume 30 1 2 ValueError]
  by (simp add: single_frame_volume_def)

text \<open>
  Claim C10 (the lower band edge is inclusive). With \<open>lowFreqHz = 0\<close> and any
  \<open>highFreqHz \<ge> 0\<close>, a well-formed volume with at least one time sample that is
  the same at every time comes back unchanged: bin 0 is inside the band and
  the other bins of a constant series are zero.
\<close>

theorem dc_retained_at_zero:
  assumes "wf_volume V" "slices V \<noteq> []" "constant_in_time V" "fps \<noteq> 0" "0 \<le> high_freq"
  shows "temporal_bandpass_filter V fps 0 high_freq = Inr V"
  using assms by (rule constant_filter_keep)

text \<open>Claim C10 at \<open>constant_volume\<close> with the band \<open>[0, 0]\<close>.\<close>

theorem dc_retained_at_zero_witness:
  "wf_volume constant_volume \<and> slices constant_volume \<noteq> [] \<and> constant_in_time constant_volume
   \<and> (30::real) \<noteq> 0 \<and> (0::real) \<le> 0
   \<and> temporal_bandpass_filter constant_volume 30 0 0 = Inr constant_volume"
proof -
  have h: "wf_volume constant_volume" "slices constant_volume \<noteq> []"
    "constant_in_time constant_volume" "(30::real) \<noteq> 0" "(0::real) \<le> 0"
    by (simp_all add: constant_volume_def wf_volume_def width_def constant_in_time_def)
  show ?thesis using h dc_retained_at_zero[OF h] by simp
qed

section \<open>The skip heuristic\<close>

lemma filter_levels_nth:
  "filter_levels L fps lo hi k vols = Inr fs \<Longrightarrow>
     length fs = length vols \<and>
     (\<forall>j<length vols.
        if is_filtered L (k + j) (vols ! j)
        then temporal_bandpass_filter (vols ! j) fps lo hi = Inr (fs ! j)
        else fs ! j = zeros_like (vols ! j))"
proof (induction vols arbitrary: k fs)
  case Nil
  then show ?case by simp
next
  case (Cons v vols)
  from Cons.prems obtain f rest where fs: "fs = f # rest"
    and rest: "filter_levels L fps lo hi (Suc k) vols = Inr rest"
    and f: "if is_filtered L k v then temporal_bandpass_filter v fps lo hi = Inr f
            else f = zeros_like v"
    by (auto split: if_splits sum.splits)
  from Cons.IH[OF rest] have len: "length rest = length vols"
    and ih: "\<forall>j<length vols.
        if is_filtered L (Suc k + j) (vols ! j)
        then temporal_bandpass_filter (vols ! j) fps lo hi = Inr (rest ! j)
        else rest ! j = zeros_like (vols ! j)" by simp_all
  show ?case
  proof (intro conjI allI impI)
    show "length fs = length (v # vols)" using len fs by simp
  next
    fix j assume j: "j < length (v # vols)"
    show "if is_filtered L (k + j) ((v # vols) ! j)
          then temporal_bandpass_filter ((v # vols) ! j) fps lo hi = Inr (fs ! j)
          else fs ! j = zeros_like ((v # vols) ! j)"
    proof (cases j)
      case 0
      then show ?thesis using f fs by simp
    next
      case (Suc i)
      then have "i < length vols" using j by simp
      with ih have "if is_filtered L (Suc k + i) (vols ! i)
        then temporal_bandpass_filter (vols ! i) fps lo hi = Inr (rest ! i)
        else rest ! i = zeros_like (vols ! i)" by blast
      then show ?thesis using Suc fs by simp
    qed
  qed
qed

lemma amplify_zeros: "amplify (zeros_like v) alpha = zeros_like v"
  by (simp add: amplify_def zeros_like_def o_def)

lemma map2_add_zeros: "map2 (+) s (map (\<lambda>_. 0) s) = (s :: real list)"
  by (induction s) simp_all

lemma recombine_zero_level:
  assumes "l < length vols" "length amps = length vols" "amps ! l = zeros_like (vols ! l)"
  shows "recombine_level vols amps i l = time_slice (vols ! l) i"
  using assms
  by (simp add: recombine_level_def py_index_def time_slice_def zeros_like_def np_add_def
        same_shape_def map2_add_zeros)



lemma if_thenD: "(if c then a else b) \<Longrightarrow> c \<Longrightarrow> a"
  by simp

lemma if_elseD: "(if c then a else b) \<Longrightarrow> \<not> c \<Longrightarrow> b"
  by simp

lemma temporal_bandpass_filter_shape:
  assumes "temporal_bandpass_filter V fps lo hi = Inr F"
  shows "vrows F = vrows V \<and> vcols F = vcols V \<and> vchans F = vchans V
       \<and> length (slices F) = length (slices V)"
  using assms
  by (auto simp: temporal_bandpass_filter_def Let_def apply_mask_def length_fftfreq
      split: if_splits)

lemma recombine_amplified_level:
  assumes "l < length vols" "length fs = length vols"
      and "vrows (fs ! l) = vrows (vols ! l) \<and> vcols (fs ! l) = vcols (vols ! l)
           \<and> vchans (fs ! l) = vchans (vols ! l)
           \<and> length (slices (fs ! l)) = length (slices (vols ! l))"
      and "i < length (slices (vols ! l))"
  shows "recombine_level vols (map (\<lambda>level. amplify level alpha) fs) i l
         = Inr \<lparr>rows = vrows (vols ! l), cols = vcols (vols ! l), chans = vchans (vols ! l),
                pix = map2 (+) (slices (vols ! l) ! i)
                        (map (\<lambda>x. x * alpha) (slices (fs ! l) ! i))\<rparr>"
  using assms
  by (simp add: recombine_level_def py_index_def time_slice_def amplify_def np_add_def
        same_shape_def)

lemma moving_level_column:
  assumes "p < 75"
  shows "column (slices moving_level_volume) p = [real p, 3 * real p]"
  using assms by (simp add: moving_level_volume_def column_def)

lemma spec_bandpass_moving_level:
  "spec_bandpass moving_level_volume 30 5 20
   = \<lparr>vrows = 5, vcols = 5, vchans = 3,
      slices = [map (\<lambda>k. - real k) [0..<75], map real [0..<75]]\<rparr>"
proof -
  have d: "width moving_level_volume = 75" "[0..<length (slices moving_level_volume)] = [0, 1]"
    by (simp_all add: width_def moving_level_volume_def upt_rec)
  have "map (\<lambda>t. map (\<lambda>p. spec_bandpass_series 30 5 20 (column (slices moving_level_volume) p) ! t)
                   [0..<width moving_level_volume]) [0..<length (slices moving_level_volume)]
        = [map (\<lambda>k. - real k) [0..<75], map real [0..<75]]"
    unfolding d by (simp add: moving_level_column spec_series_two)
  then show ?thesis by (simp add: spec_bandpass_def moving_level_volume_def)
qed

lemma bandpass_moving_level:
  "temporal_bandpass_filter moving_level_volume 30 5 20
   = Inr \<lparr>vrows = 5, vcols = 5, vchans = 3,
          slices = [map (\<lambda>k. - real k) [0..<75], map real [0..<75]]\<rparr>"
proof -
  have h: "wf_volume moving_level_volume" "slices moving_level_volume \<noteq> []" "(30::real) \<noteq> 0"
    by (simp_all add: moving_level_volume_def wf_volume_def width_def)
  have "length (slices moving_level_volume) = 2" by (simp add: moving_level_volume_def)
  then have c: "clear_of_edges (length (slices moving_level_volume)) 30 5 20"
    by (simp only: clear_two_bins)
  have "float_bandpass moving_level_volume 30 5 20 = spec_bandpass moving_level_volume 30 5 20"
    by (rule float_bandpass_is_spec[OF _ c]) simp
  then show ?thesis
    using bandpass_is_float[OF h, of 5 20] by (simp only: spec_bandpass_moving_level)
qed

text \<open>
  Claim C3 (skip heuristic). After step 3, a level whose index is
  \<open>pyramid_levels - 1\<close> (or beyond) or whose smaller spatial dimension is at most
  4 has the zero volume as its filtered volume, the zero volume as its
  amplified volume, and the level recombined for any frame is the original
  time slice. Every other level has the result of \<^verbatim>\<open>temporal_bandpass_filter\<close>
  as its filtered volume, every entry of that result times \<open>alpha\<close> as its
  amplified volume, and the level recombined for a frame is the original time
  slice plus that frame of the amplified volume, entry by entry.
\<close>

theorem skip_heuristic:
  assumes "filter_levels pyramid_levels fps lo hi 0 pyramid_video_t = Inr filtered"
      and "level_idx < length pyramid_video_t"
  shows "if pyramid_levels - 1 \<le> int level_idx
            \<or> min (vrows (pyramid_video_t ! level_idx)) (vcols (pyramid_video_t ! level_idx)) \<le> 4
         then filtered ! level_idx = zeros_like (pyramid_video_t ! level_idx)
            \<and> amplify (filtered ! level_idx) alpha = zeros_like (pyramid_video_t ! level_idx)
            \<and> (\<forall>i. recombine_level pyramid_video_t (map (\<lambda>level. amplify level alpha) filtered)
                       i level_idx
                     = time_slice (pyramid_video_t ! level_idx) i)
         else temporal_bandpass_filter (pyramid_video_t ! level_idx) fps lo hi
                = Inr (filtered ! level_idx)
            \<and> map (\<lambda>level. amplify level alpha) filtered ! level_idx
                = (filtered ! level_idx)
                    \<lparr>slices := map (map (\<lambda>x. x * alpha)) (slices (filtered ! level_idx))\<rparr>
            \<and> (\<forall>i<length (slices (pyramid_video_t ! level_idx)).
                  recombine_level pyramid_video_t (map (\<lambda>level. amplify level alpha) filtered)
                    i level_idx
                  = Inr \<lparr>rows = vrows (pyramid_video_t ! level_idx),
                         cols = vcols (pyramid_video_t ! level_idx),
                         chans = vchans (pyramid_video_t ! level_idx),
                         pix = map2 (+) (slices (pyramid_video_t ! level_idx) ! i)
                                 (map (\<lambda>x. x * alpha) (slices (filtered ! level_idx) ! i))\<rparr>)"
proof -
  let ?v = "pyramid_video_t ! level_idx"
  from filter_levels_nth[OF assms(1)] assms(2)
  have len: "length filtered = length pyramid_video_t"
    and f: "if is_filtered pyramid_levels level_idx ?v
            then temporal_bandpass_filter ?v fps lo hi = Inr (filtered ! level_idx)
            else filtered ! level_idx = zeros_like ?v" by simp_all
  have cond: "is_filtered pyramid_levels level_idx ?v
              \<longleftrightarrow> \<not> (pyramid_levels - 1 \<le> int level_idx \<or> min (vrows ?v) (vcols ?v) \<le> 4)"
    by (auto simp: is_filtered_def)
  show ?thesis
  proof (cases "is_filtered pyramid_levels level_idx ?v")
    case True
    then have t: "temporal_bandpass_filter ?v fps lo hi = Inr (filtered ! level_idx)"
      using f by simp
    have a: "map (\<lambda>level. amplify level alpha) filtered ! level_idx
             = (filtered ! level_idx)
                 \<lparr>slices := map (map (\<lambda>x. x * alpha)) (slices (filtered ! level_idx))\<rparr>"
      using assms(2) len by (simp add: amplify_def)
    have r: "recombine_level pyramid_video_t (map (\<lambda>level. amplify level alpha) filtered)
               i level_idx
             = Inr \<lparr>rows = vrows ?v, cols = vcols ?v, chans = vchans ?v,
                    pix = map2 (+) (slices ?v ! i)
                            (map (\<lambda>x. x * alpha) (slices (filtered ! level_idx) ! i))\<rparr>"
      if "i < length (slices ?v)" for i
      by (rule recombine_amplified_level[OF assms(2) len temporal_bandpass_filter_shape[OF t] that])
    from True cond have "\<not> (pyramid_levels - 1 \<le> int level_idx \<or> min (vrows ?v) (vcols ?v) \<le> 4)"
      by simp
    then show ?thesis using t a r by (simp only: if_False) blast
  next
    case False
    then have z: "filtered ! level_idx = zeros_like ?v" using f by simp
    have a: "map (\<lambda>level. amplify level alpha) filtered ! level_idx = zeros_like ?v"
      using assms(2) len by (simp add: z amplify_zeros)
    have "recombine_level pyramid_video_t (map (\<lambda>level. amplify level alpha) filtered) i level_idx
          = time_slice ?v i" for i
      by (rule recombine_zero_level[OF assms(2) _ a]) (simp add: len)
    then show ?thesis using False cond z by (simp add: amplify_zeros)
  qed
qed

text \<open>
  Claim C3 at a pyramid of three levels over two frames, at 30 frames per
  second, the band \<open>[5, 20]\<close> and the factor 10. Level 0 is filtered: its
  series \<open>[k, 3 k]\<close> become \<open>[- k, k]\<close>, and the level recombined for frame 1 is
  \<open>3 k + 10 k\<close>. Level 1 is skipped for its size and level 2 for being the
  last.
\<close>

theorem skip_heuristic_witness:
  "filter_levels 3 30 5 20 0 [moving_level_volume, level1_volume, level2_volume]
     = Inr [\<lparr>vrows = 5, vcols = 5, vchans = 3,
                 slices = [map (\<lambda>k. - real k) [0..<75], map real [0..<75]]\<rparr>,
            zeros_like level1_volume, zeros_like level2_volume]
   \<and> 0 < length [moving_level_volume, level1_volume, level2_volume]
   \<and> 1 < length (slices moving_level_volume)
   \<and> temporal_bandpass_filter moving_level_volume 30 5 20
       = Inr \<lparr>vrows = 5, vcols = 5, vchans = 3,
                 slices = [map (\<lambda>k. - real k) [0..<75], map real [0..<75]]\<rparr>
   \<and> recombine_level [moving_level_volume, level1_volume, level2_volume]
        (map (\<lambda>level. amplify level 10)
           [\<lparr>vrows = 5, vcols = 5, vchans = 3,
                 slices = [map (\<lambda>k. - real k) [0..<75], map real [0..<75]]\<rparr>,
            zeros_like level1_volume, zeros_like level2_volume]) 1 0
      = Inr \<lparr>rows = 5, cols = 5, chans = 3, pix = map (\<lambda>k. 13 * real k) [0..<75]\<rparr>
   \<and> amplify (zeros_like level1_volume) 10 = zeros_like level1_volume
   \<and> recombine_level [moving_level_volume, level1_volume, level2_volume]
        (map (\<lambda>level. amplify level 10)
           [\<lparr>vrows = 5, vcols = 5, vchans = 3,
                 slices = [map (\<lambda>k. - real k) [0..<75], map real [0..<75]]\<rparr>,
            zeros_like level1_volume, zeros_like level2_volume]) 0 2
      = time_slice level2_volume 0"
proof -
  define F where "F = \<lparr>vrows = 5, vcols = 5, vchans = 3,
                 slices = [map (\<lambda>k. - real k) [0..<75], map real [0..<75]]\<rparr>"
  define P where "P = [moving_level_volume, level1_volume, level2_volume]"
  define Fs where "Fs = [F, zeros_like level1_volume, zeros_like level2_volume]"
  have P: "P ! 0 = moving_level_volume" "P ! 1 = level1_volume" "P ! 2 = level2_volume"
    "0 < length P" "1 < length P" "2 < length P"
    by (simp_all add: P_def)
  have Fs: "Fs ! 0 = F" "Fs ! 1 = zeros_like level1_volume" by (simp_all add: Fs_def)
  have t: "temporal_bandpass_filter moving_level_volume 30 5 20 = Inr F"
    unfolding F_def by (rule bandpass_moving_level)
  have c0: "is_filtered 3 0 moving_level_volume"
    by (simp add: is_filtered_def moving_level_volume_def)
  have c1: "\<not> is_filtered 3 (Suc 0) level1_volume"
    by (simp add: is_filtered_def level1_volume_def)
  have c2: "\<not> is_filtered 3 (Suc (Suc 0)) level2_volume"
    by (simp add: is_filtered_def)
  have H: "filter_levels 3 30 5 20 0 P = Inr Fs"
    by (simp add: P_def Fs_def c0 c1 c2 t)
  have m0: "\<not> (3 - 1 \<le> int 0 \<or> min (vrows (P ! 0)) (vcols (P ! 0)) \<le> 4)"
    unfolding P by (simp add: moving_level_volume_def)
  have m1: "3 - 1 \<le> int 1 \<or> min (vrows (P ! 1)) (vcols (P ! 1)) \<le> 4"
    unfolding P by (simp add: level1_volume_def)
  have m2: "3 - 1 \<le> int 2 \<or> min (vrows (P ! 2)) (vcols (P ! 2)) \<le> 4"
    by simp
  have l: "1 < length (slices moving_level_volume)" by (simp add: moving_level_volume_def)
  have "\<forall>i<length (slices (P ! 0)).
          recombine_level P (map (\<lambda>level. amplify level 10) Fs) i 0
          = Inr \<lparr>rows = vrows (P ! 0), cols = vcols (P ! 0), chans = vchans (P ! 0),
                 pix = map2 (+) (slices (P ! 0) ! i) (map (\<lambda>x. x * 10) (slices (Fs ! 0) ! i))\<rparr>"
    using if_elseD[OF skip_heuristic[OF H P(4), of 10] m0] by blast
  then have "recombine_level P (map (\<lambda>level. amplify level 10) Fs) 1 0
        = Inr \<lparr>rows = vrows moving_level_volume, cols = vcols moving_level_volume,
               chans = vchans moving_level_volume,
               pix = map2 (+) (slices moving_level_volume ! 1)
                       (map (\<lambda>x. x * 10) (slices F ! 1))\<rparr>"
    using l by (simp only: P Fs)
  moreover have "map2 (+) (slices moving_level_volume ! 1) (map (\<lambda>x. x * 10) (slices F ! 1))
                 = map (\<lambda>k. 13 * real k) [0..<75]"
    by (simp add: moving_level_volume_def F_def map2_map_map)
  ultimately have r0: "recombine_level P (map (\<lambda>level. amplify level 10) Fs) 1 0
        = Inr \<lparr>rows = 5, cols = 5, chans = 3, pix = map (\<lambda>k. 13 * real k) [0..<75]\<rparr>"
    by (simp add: moving_level_volume_def)
  have "amplify (Fs ! 1) 10 = zeros_like (P ! 1)"
    using if_thenD[OF skip_heuristic[OF H P(5), of 10] m1] by blast
  then have a1: "amplify (zeros_like level1_volume) 10 = zeros_like level1_volume"
    by (simp only: P Fs)
  have "\<forall>i. recombine_level P (map (\<lambda>level. amplify level 10) Fs) i 2 = time_slice (P ! 2) i"
    using if_thenD[OF skip_heuristic[OF H P(6), of 10] m2] by blast
  then have r2: "recombine_level P (map (\<lambda>level. amplify level 10) Fs) 0 2
                 = time_slice level2_volume 0"
    by (simp only: P)
  from H P(4) l t r0 a1 r2 show ?thesis unfolding F_def P_def Fs_def by blast
qed

section \<open>Effects on the store\<close>

lemma read_volume_prefix:
  assumes "prefix h h'" "read_volume h r = Inr v"
  shows "read_volume h' r = Inr v"
proof -
  from assms(1) obtain ext where h': "h' = h @ ext" by (auto simp: prefix_def)
  show ?thesis using assms(2)
    by (cases r) (auto simp: read_volume_def h' nth_append split: if_splits)
qed

lemma read_frame_prefix:
  assumes "prefix h h'" "read_frame h a = Inr f"
  shows "read_frame h' a = Inr f"
proof -
  from assms(1) obtain ext where h': "h' = h @ ext" by (auto simp: prefix_def)
  show ?thesis using assms(2)
    by (auto simp: read_frame_def h' nth_append split: if_splits)
qed

lemma read_frames_prefix:
  "prefix h h' \<Longrightarrow> read_frames h addrs = Inr fs \<Longrightarrow> read_frames h' addrs = Inr fs"
proof (induction addrs arbitrary: fs)
  case Nil
  then show ?case by simp
next
  case (Cons a addrs)
  from Cons.prems(2) obtain f rest where f: "read_frame h a = Inr f"
    and rest: "read_frames h addrs = Inr rest" and fs: "fs = f # rest"
    by (auto split: sum.splits)
  show ?case
    using read_frame_prefix[OF Cons.prems(1) f] Cons.IH[OF Cons.prems(1) rest] fs by simp
qed

lemma readable_prefix:
  "prefix h h' \<Longrightarrow> list_all2 (\<lambda>r v. read_volume h r = Inr v) refs vols
   \<Longrightarrow> list_all2 (\<lambda>r v. read_volume h' r = Inr v) refs vols"
  by (erule list_all2_mono) (rule read_volume_prefix)

lemma width_with_slices [simp]: "width (with_slices v s) = width v"
  by (simp add: with_slices_def width_def)

lemma temporal_bandpass_filter_st_eval:
  assumes "read_volume h data = Inr v" "slices v \<noteq> []" "fps \<noteq> 0"
  shows "\<exists>F G R. temporal_bandpass_filter_st h data fps lo hi
                   = (Inr (RealPart (length h + 2)), h @ [ComplexArr F, ComplexArr G, ComplexArr R])
               \<and> temporal_bandpass_filter v fps lo hi
                   = Inr (with_slices R (map (map Re) (slices R)))"
proof -
  define F where "F = with_slices v (along_axis0 np_fft (width v) (map (map complex_of_real) (slices v)))"
  define freq_mask where
    "freq_mask = map (\<lambda>f. \<bar>f\<bar> \<ge> lo \<and> \<bar>f\<bar> \<le> hi) (fftfreq (length (slices v)) (float64 (1 / fps)))"
  define G where "G = with_slices F (apply_mask freq_mask (slices F))"
  define R where "R = with_slices G (along_axis0 np_ifft (width G) (slices G))"
  have st: "temporal_bandpass_filter_st h data fps lo hi
            = (Inr (RealPart (length h + 2)), h @ [ComplexArr F, ComplexArr G, ComplexArr R])"
    using assms
    by (simp add: temporal_bandpass_filter_st_def Let_def zero_masked_def read_complex_def
          nth_append list_update_append R_def G_def F_def freq_mask_def)
  have pure: "temporal_bandpass_filter v fps lo hi = Inr (with_slices R (map (map Re) (slices R)))"
    using assms(2,3)
    by (simp add: temporal_bandpass_filter_def Let_def R_def G_def F_def freq_mask_def
          with_slices_def width_def)
  show ?thesis using st pure by blast
qed

lemma temporal_bandpass_filter_st_sim:
  assumes "read_volume h data = Inr v"
  shows "case temporal_bandpass_filter_st h data fps lo hi of
           (res, h') \<Rightarrow>
             prefix h h' \<and>
             (case res of
                Inl e \<Rightarrow> temporal_bandpass_filter v fps lo hi = Inl e
              | Inr r \<Rightarrow> (\<exists>F. temporal_bandpass_filter v fps lo hi = Inr F
                              \<and> read_volume h' r = Inr F))"
proof (cases "slices v = []")
  case True
  then show ?thesis using assms
    by (simp add: temporal_bandpass_filter_st_def temporal_bandpass_filter_def)
next
  case ne: False
  show ?thesis
  proof (cases "fps = 0")
    case True
    then show ?thesis using assms ne
      by (simp add: temporal_bandpass_filter_st_def temporal_bandpass_filter_def Let_def)
  next
    case False
    from temporal_bandpass_filter_st_eval[OF assms ne False, of lo hi] obtain F G R
      where st: "temporal_bandpass_filter_st h data fps lo hi
                   = (Inr (RealPart (length h + 2)), h @ [ComplexArr F, ComplexArr G, ComplexArr R])"
        and pure: "temporal_bandpass_filter v fps lo hi = Inr (with_slices R (map (map Re) (slices R)))"
      by blast
    have "read_volume (h @ [ComplexArr F, ComplexArr G, ComplexArr R]) (RealPart (length h + 2))
          = Inr (with_slices R (map (map Re) (slices R)))"
      by (simp add: read_volume_def nth_append)
    then show ?thesis using st pure by simp
  qed
qed

lemma temporal_bandpass_filter_st_prefix:
  "prefix h (snd (temporal_bandpass_filter_st h data fps lo hi))"
proof (cases "read_volume h data")
  case (Inl e)
  then show ?thesis by (simp add: temporal_bandpass_filter_st_def)
next
  case (Inr v)
  from temporal_bandpass_filter_st_sim[OF Inr, of fps lo hi] show ?thesis
    by (simp add: case_prod_unfold)
qed

lemma filter_levels_st_sim:
  assumes "list_all2 (\<lambda>r v. read_volume h r = Inr v) refs vols"
  shows "case filter_levels_st h L fps lo hi k refs of
           (res, h') \<Rightarrow>
             prefix h h' \<and>
             (case res of
                Inl e \<Rightarrow> filter_levels L fps lo hi k vols = Inl e
              | Inr rs \<Rightarrow> (\<exists>fs. filter_levels L fps lo hi k vols = Inr fs
                               \<and> list_all2 (\<lambda>r v. read_volume h' r = Inr v) rs fs))"
  using assms
proof (induction refs arbitrary: h k vols)
  case Nil
  then show ?case by simp
next
  case (Cons r refs)
  from Cons.prems obtain v vols' where vols: "vols = v # vols'"
    and rv: "read_volume h r = Inr v"
    and rest: "list_all2 (\<lambda>r v. read_volume h r = Inr v) refs vols'"
    by (auto simp: list_all2_Cons1)
  define step where "step = (if is_filtered L k v
                 then temporal_bandpass_filter_st h r fps lo hi
                 else (Inr (Array (length h)), h @ [RealArr (zeros_like v)]))"
  define pv where "pv = (if is_filtered L k v
                 then temporal_bandpass_filter v fps lo hi else Inr (zeros_like v))"
  obtain res1 h1 where s1: "step = (res1, h1)" by (cases step)
  have unfold_st: "filter_levels_st h L fps lo hi k (r # refs) =
     (case step of
        (Inl e, h') \<Rightarrow> (Inl e, h')
      | (Inr filtered_level, h') \<Rightarrow>
          (case filter_levels_st h' L fps lo hi (Suc k) refs of
             (Inl e, h'') \<Rightarrow> (Inl e, h'')
           | (Inr filtered, h'') \<Rightarrow> (Inr (filtered_level # filtered), h'')))"
    by (simp add: rv step_def)
  have unfold_pure: "filter_levels L fps lo hi k (v # vols') =
     (case pv of
        Inl e \<Rightarrow> Inl e
      | Inr f \<Rightarrow> (case filter_levels L fps lo hi (Suc k) vols' of
                    Inl e \<Rightarrow> Inl e
                  | Inr fs \<Rightarrow> Inr (f # fs)))"
    by (simp add: pv_def)
  have sim1: "prefix h h1 \<and>
       (case res1 of Inl e \<Rightarrow> pv = Inl e
        | Inr r1 \<Rightarrow> (\<exists>f. pv = Inr f \<and> read_volume h1 r1 = Inr f))"
  proof (cases "is_filtered L k v")
    case True
    with temporal_bandpass_filter_st_sim[OF rv, of fps lo hi] s1 show ?thesis
      by (auto simp: step_def pv_def split: sum.splits)
  next
    case False
    with s1 show ?thesis
      by (auto simp: step_def pv_def read_volume_def)
  qed
  show ?case
  proof (cases res1)
    case (Inl e)
    then show ?thesis using sim1 s1 by (simp add: unfold_st unfold_pure vols del: filter_levels_st.simps filter_levels.simps)
  next
    case (Inr r1)
    with sim1 obtain f where p: "prefix h h1" and f: "pv = Inr f" "read_volume h1 r1 = Inr f"
      by auto
    obtain res2 h2 where s2: "filter_levels_st h1 L fps lo hi (Suc k) refs = (res2, h2)"
      by (cases "filter_levels_st h1 L fps lo hi (Suc k) refs")
    from Cons.IH[OF readable_prefix[OF p rest], of "Suc k"] s2
    have ih: "prefix h1 h2"
      "case res2 of Inl e \<Rightarrow> filter_levels L fps lo hi (Suc k) vols' = Inl e
       | Inr rs \<Rightarrow> (\<exists>fs. filter_levels L fps lo hi (Suc k) vols' = Inr fs
                       \<and> list_all2 (\<lambda>r v. read_volume h2 r = Inr v) rs fs)"
      by simp_all
    have p2: "prefix h h2" using p ih(1) by (rule prefix_order.trans)
    have st: "filter_levels_st h L fps lo hi k (r # refs) =
              (case res2 of Inl e \<Rightarrow> (Inl e, h2) | Inr filtered \<Rightarrow> (Inr (r1 # filtered), h2))"
      by (simp add: unfold_st s1 Inr s2 del: filter_levels_st.simps split: sum.splits)
    show ?thesis
    proof (cases res2)
      case (Inl e)
      then show ?thesis using ih(2) p2 f(1)
        by (simp add: st unfold_pure vols del: filter_levels_st.simps filter_levels.simps)
    next
      case (Inr rs)
      with ih(2) obtain fs where fs: "filter_levels L fps lo hi (Suc k) vols' = Inr fs"
        "list_all2 (\<lambda>r v. read_volume h2 r = Inr v) rs fs" by auto
      have "read_volume h2 r1 = Inr f" by (rule read_volume_prefix[OF ih(1) f(2)])
      then show ?thesis using Inr fs p2 f(1)
        by (simp add: st unfold_pure vols del: filter_levels_st.simps filter_levels.simps)
    qed
  qed
qed

lemma amplify_st_sim:
  assumes "list_all2 (\<lambda>r v. read_volume h r = Inr v) rs fs"
  shows "case amplify_st h alpha rs of
           (res, h') \<Rightarrow>
             prefix h h' \<and>
             (\<exists>as. res = Inr as
                  \<and> list_all2 (\<lambda>r v. read_volume h' r = Inr v) as
                       (map (\<lambda>level. amplify level alpha) fs))"
  using assms
proof (induction rs arbitrary: h fs)
  case Nil
  then show ?case by simp
next
  case (Cons r rs)
  from Cons.prems obtain f fs' where fs: "fs = f # fs'"
    and rv: "read_volume h r = Inr f"
    and rest: "list_all2 (\<lambda>r v. read_volume h r = Inr v) rs fs'"
    by (auto simp: list_all2_Cons1)
  define h1 where "h1 = h @ [RealArr (amplify f alpha)]"
  have p: "prefix h h1" by (simp add: h1_def)
  have r1: "read_volume h1 (Array (length h)) = Inr (amplify f alpha)"
    by (simp add: h1_def read_volume_def)
  obtain res2 h2 where s2: "amplify_st h1 alpha rs = (res2, h2)" by (cases "amplify_st h1 alpha rs")
  from Cons.IH[OF readable_prefix[OF p rest]] s2
  obtain as where ih: "prefix h1 h2" "res2 = Inr as"
    "list_all2 (\<lambda>r v. read_volume h2 r = Inr v) as (map (\<lambda>level. amplify level alpha) fs')"
    by auto
  have "read_volume h2 (Array (length h)) = Inr (amplify f alpha)"
    by (rule read_volume_prefix[OF ih(1) r1])
  moreover have "prefix h h2" using p ih(1) by (rule prefix_order.trans)
  ultimately show ?case using rv s2 ih(2,3) by (simp add: h1_def[symmetric] fs)
qed

lemma py_index_readable:
  assumes "list_all2 (\<lambda>r v. read_volume h r = Inr v) refs vols"
  shows "(case py_index refs l of
            Inl e \<Rightarrow> py_index vols l = Inl e
          | Inr r \<Rightarrow> (\<exists>v. py_index vols l = Inr v \<and> read_volume h r = Inr v))"
proof (cases "l < length refs")
  case True
  then have "read_volume h (refs ! l) = Inr (vols ! l)"
    using assms by (simp add: list_all2_conv_all_nth)
  then show ?thesis using True assms by (simp add: py_index_def list_all2_lengthD)
next
  case False
  then show ?thesis using assms by (simp add: py_index_def list_all2_lengthD)
qed

lemma recombine_level_st_sim:
  assumes o: "list_all2 (\<lambda>r v. read_volume h r = Inr v) orig vols"
      and a: "list_all2 (\<lambda>r v. read_volume h r = Inr v) amp amps"
  shows "case recombine_level_st h orig amp i l of
           (res, h') \<Rightarrow>
             prefix h h' \<and>
             (case res of
                Inl e \<Rightarrow> recombine_level vols amps i l = Inl e
              | Inr addr \<Rightarrow> (\<exists>f. recombine_level vols amps i l = Inr f
                                 \<and> read_frame h' addr = Inr f))"
  using py_index_readable[OF o, of l] py_index_readable[OF a, of l]
  by (auto simp: recombine_level_st_def recombine_level_def read_frame_def split: sum.splits)

lemma frame_pyramid_st_sim:
  assumes "list_all2 (\<lambda>r v. read_volume h r = Inr v) orig vols"
      and "list_all2 (\<lambda>r v. read_volume h r = Inr v) amp amps"
  shows "case frame_pyramid_st h orig amp i idxs of
           (res, h') \<Rightarrow>
             prefix h h' \<and>
             (case res of
                Inl e \<Rightarrow> frame_pyramid vols amps i idxs = Inl e
              | Inr addrs \<Rightarrow> (\<exists>fs. frame_pyramid vols amps i idxs = Inr fs
                                  \<and> read_frames h' addrs = Inr fs))"
  using assms
proof (induction idxs arbitrary: h)
  case Nil
  then show ?case by simp
next
  case (Cons l idxs)
  obtain res1 h1 where s1: "recombine_level_st h orig amp i l = (res1, h1)"
    by (cases "recombine_level_st h orig amp i l")
  from recombine_level_st_sim[OF Cons.prems, of i l] s1
  have p: "prefix h h1"
    and r1: "case res1 of Inl e \<Rightarrow> recombine_level vols amps i l = Inl e
             | Inr addr \<Rightarrow> (\<exists>f. recombine_level vols amps i l = Inr f \<and> read_frame h1 addr = Inr f)"
    by simp_all
  show ?case
  proof (cases res1)
    case (Inl e)
    then show ?thesis using p r1 s1 by simp
  next
    case (Inr addr)
    with r1 obtain f where f: "recombine_level vols amps i l = Inr f" "read_frame h1 addr = Inr f"
      by auto
    obtain res2 h2 where s2: "frame_pyramid_st h1 orig amp i idxs = (res2, h2)"
      by (cases "frame_pyramid_st h1 orig amp i idxs")
    from Cons.IH[OF readable_prefix[OF p Cons.prems(1)] readable_prefix[OF p Cons.prems(2)]] s2
    have ih: "prefix h1 h2"
      "case res2 of Inl e \<Rightarrow> frame_pyramid vols amps i idxs = Inl e
       | Inr addrs \<Rightarrow> (\<exists>fs. frame_pyramid vols amps i idxs = Inr fs \<and> read_frames h2 addrs = Inr fs)"
      by simp_all
    have p2: "prefix h h2" using p ih(1) by (rule prefix_order.trans)
    have f2: "read_frame h2 addr = Inr f" by (rule read_frame_prefix[OF ih(1) f(2)])
    show ?thesis
    proof (cases res2)
      case (Inl e)
      then show ?thesis using ih(2) p2 f(1) s1 s2 Inr by simp
    next
      case Inr2: (Inr addrs)
      with ih(2) obtain fs where "frame_pyramid vols amps i idxs = Inr fs" "read_frames h2 addrs = Inr fs"
        by auto
      then show ?thesis using p2 f(1) f2 s1 s2 Inr Inr2 by simp
    qed
  qed
qed

lemma reconstruct_frames_st_sim:
  assumes "list_all2 (\<lambda>r v. read_volume h r = Inr v) orig vols"
      and "list_all2 (\<lambda>r v. read_volume h r = Inr v) amp amps"
  shows "case reconstruct_frames_st h up orig amp L idxs of
           (res, h') \<Rightarrow> prefix h h' \<and> res = reconstruct_frames up vols amps L idxs"
  using assms
proof (induction idxs arbitrary: h)
  case Nil
  then show ?case by simp
next
  case (Cons i idxs)
  obtain res1 h1 where s1: "frame_pyramid_st h orig amp i [0..<nat L] = (res1, h1)"
    by (cases "frame_pyramid_st h orig amp i [0..<nat L]")
  from frame_pyramid_st_sim[OF Cons.prems, of i "[0..<nat L]"] s1
  have p: "prefix h h1"
    and r1: "case res1 of Inl e \<Rightarrow> frame_pyramid vols amps i [0..<nat L] = Inl e
             | Inr addrs \<Rightarrow> (\<exists>fs. frame_pyramid vols amps i [0..<nat L] = Inr fs
                                 \<and> read_frames h1 addrs = Inr fs)"
    by simp_all
  show ?case
  proof (cases res1)
    case (Inl e)
    then show ?thesis using p r1 s1 by simp
  next
    case (Inr addrs)
    with r1 obtain fs where fs: "frame_pyramid vols amps i [0..<nat L] = Inr fs"
      "read_frames h1 addrs = Inr fs" by auto
    obtain res2 h2 where s2: "reconstruct_frames_st h1 up orig amp L idxs = (res2, h2)"
      by (cases "reconstruct_frames_st h1 up orig amp L idxs")
    from Cons.IH[OF readable_prefix[OF p Cons.prems(1)] readable_prefix[OF p Cons.prems(2)]] s2
    have ih: "prefix h1 h2" "res2 = reconstruct_frames up vols amps L idxs" by simp_all
    have p2: "prefix h h2" using p ih(1) by (rule prefix_order.trans)
    show ?thesis
    proof (cases "reconstruct_from_laplacian_pyramid up fs")
      case (Inl e)
      then show ?thesis using p fs s1 Inr by simp
    next
      case Inr2: (Inr frame)
      then show ?thesis using p2 fs s1 s2 Inr ih(2) by (simp split: sum.splits)
    qed
  qed
qed

lemma magnify_st_sim:
  assumes "list_all2 (\<lambda>r v. read_volume h r = Inr v) refs vols"
  shows "case magnify_st h up refs n fps L lo hi alpha of
           (out, h') \<Rightarrow> prefix h h' \<and> out = magnify up vols n fps L lo hi alpha"
proof -
  obtain res1 h1 where s1: "filter_levels_st h L fps lo hi 0 refs = (res1, h1)"
    by (cases "filter_levels_st h L fps lo hi 0 refs")
  from filter_levels_st_sim[OF assms, of L fps lo hi 0] s1
  have p1: "prefix h h1"
    and r1: "case res1 of Inl e \<Rightarrow> filter_levels L fps lo hi 0 vols = Inl e
             | Inr rs \<Rightarrow> (\<exists>fs. filter_levels L fps lo hi 0 vols = Inr fs
                             \<and> list_all2 (\<lambda>r v. read_volume h1 r = Inr v) rs fs)"
    by simp_all
  show ?thesis
  proof (cases res1)
    case (Inl e)
    then show ?thesis using p1 r1 s1 by (simp add: magnify_st_def magnify_def)
  next
    case (Inr rs)
    with r1 obtain fs where fs: "filter_levels L fps lo hi 0 vols = Inr fs"
      "list_all2 (\<lambda>r v. read_volume h1 r = Inr v) rs fs" by auto
    obtain res2 h2 where s2: "amplify_st h1 alpha rs = (res2, h2)" by (cases "amplify_st h1 alpha rs")
    from amplify_st_sim[OF fs(2), of alpha] s2
    obtain as where a: "prefix h1 h2" "res2 = Inr as"
      "list_all2 (\<lambda>r v. read_volume h2 r = Inr v) as (map (\<lambda>level. amplify level alpha) fs)"
      by auto
    have p2: "prefix h h2" using p1 a(1) by (rule prefix_order.trans)
    obtain res3 h3 where s3: "reconstruct_frames_st h2 up refs as L [0..<n] = (res3, h3)"
      by (cases "reconstruct_frames_st h2 up refs as L [0..<n]")
    from reconstruct_frames_st_sim[OF readable_prefix[OF p2 assms] a(3), of up L "[0..<n]"] s3
    have r3: "prefix h2 h3"
      "res3 = reconstruct_frames up vols (map (\<lambda>level. amplify level alpha) fs) L [0..<n]"
      by simp_all
    have p3: "prefix h h3" using p2 r3(1) by (rule prefix_order.trans)
    show ?thesis using p3 r3(2) s1 Inr s2 a(2) s3 fs(1)
      by (simp add: magnify_st_def magnify_def split: sum.splits)
  qed
qed

lemma amplify_st_fresh:
  "prefix h (snd (amplify_st h alpha rs)) \<and>
   (\<forall>as. fst (amplify_st h alpha rs) = Inr as \<longrightarrow>
      list_all (\<lambda>r. \<exists>k. r = Array k \<and> length h \<le> k) as)"
proof (induction rs arbitrary: h)
  case Nil
  then show ?case by simp
next
  case (Cons r rs)
  show ?case
  proof (cases "read_volume h r")
    case (Inl e)
    then show ?thesis by simp
  next
    case (Inr v)
    define h1 where "h1 = h @ [RealArr (amplify v alpha)]"
    obtain res2 h2 where s2: "amplify_st h1 alpha rs = (res2, h2)" by (cases "amplify_st h1 alpha rs")
    from Cons.IH[of h1] s2 have p: "prefix h1 h2"
      and fr: "\<forall>as. res2 = Inr as \<longrightarrow> list_all (\<lambda>r. \<exists>k. r = Array k \<and> length h1 \<le> k) as"
      by simp_all
    have "prefix h h1" by (simp add: h1_def)
    then have p2: "prefix h h2" using p by (rule prefix_order.trans)
    have fr': "list_all (\<lambda>r. \<exists>k. r = Array k \<and> length h \<le> k) as" if "res2 = Inr as" for as
    proof -
      from fr that have "list_all (\<lambda>r. \<exists>k. r = Array k \<and> length h1 \<le> k) as" by simp
      then show ?thesis by (auto simp: list_all_iff h1_def)
    qed
    show ?thesis using Inr s2 p2 fr'
      by (cases res2) (simp_all add: h1_def[symmetric])
  qed
qed

lemma recombine_level_sum:
  assumes "recombine_level vols amps i l = Inr f"
  shows "pix f = map2 (+) (slices (vols ! l) ! i) (slices (amps ! l) ! i)"
  using assms
  by (auto simp: recombine_level_def py_index_def time_slice_def np_add_def
           split: sum.splits if_splits)

text \<open>
  Claim C9 (the originals are never modified). On the store of arrays,
  \<^verbatim>\<open>temporal_bandpass_filter\<close> leaves every array that exists when it is
  called as it is, its input among them: its one assignment goes into the copy
  it has just made. Amplification returns arrays that did not exist before.
  The three steps together leave every array of the initial store as it is,
  so the references to the original volumes still read the original volumes
  at the end, and the frames they return are those computed from the original
  volumes; each recombined level is the entry-wise sum of the original time
  slice and the amplified time slice.
\<close>

theorem originals_never_modified:
  assumes "list_all2 (\<lambda>r v. read_volume h r = Inr v) pyramid_video_t volumes"
  shows "prefix h (snd (temporal_bandpass_filter_st h data fps lo hi))
       \<and> prefix h (snd (amplify_st h alpha rs))
       \<and> (\<forall>as. fst (amplify_st h alpha rs) = Inr as \<longrightarrow>
              list_all (\<lambda>r. \<exists>k. r = Array k \<and> length h \<le> k) as)
       \<and> prefix h (snd (magnify_st h up pyramid_video_t n fps L lo hi alpha))
       \<and> list_all2 (\<lambda>r v. read_volume (snd (magnify_st h up pyramid_video_t n fps L lo hi alpha)) r
                             = Inr v) pyramid_video_t volumes
       \<and> fst (magnify_st h up pyramid_video_t n fps L lo hi alpha)
           = magnify up volumes n fps L lo hi alpha
       \<and> (\<forall>f. recombine_level volumes amps i l = Inr f \<longrightarrow>
              pix f = map2 (+) (slices (volumes ! l) ! i) (slices (amps ! l) ! i))"
proof -
  from magnify_st_sim[OF assms, of up n fps L lo hi alpha]
  have m: "prefix h (snd (magnify_st h up pyramid_video_t n fps L lo hi alpha))"
    "fst (magnify_st h up pyramid_video_t n fps L lo hi alpha) = magnify up volumes n fps L lo hi alpha"
    by (simp_all add: case_prod_unfold)
  have "list_all2 (\<lambda>r v. read_volume (snd (magnify_st h up pyramid_video_t n fps L lo hi alpha)) r
                             = Inr v) pyramid_video_t volumes"
    by (rule readable_prefix[OF m(1) assms])
  then show ?thesis
    using m temporal_bandpass_filter_st_prefix[of h data fps lo hi] amplify_st_fresh[of h alpha rs]
      recombine_level_sum[of volumes amps i l]
    by blast
qed

text \<open>
  Claim C9 on a store that holds the three volumes \<open>level0_volume\<close>,
  \<open>level1_volume\<close> and \<open>level2_volume\<close>.
\<close>

theorem originals_never_modified_witness:
  "list_all2 (\<lambda>r v. read_volume [RealArr level0_volume, RealArr level1_volume, RealArr level2_volume] r
                        = Inr v)
     [Array 0, Array 1, Array 2] [level0_volume, level1_volume, level2_volume]
   \<and> prefix [RealArr level0_volume, RealArr level1_volume, RealArr level2_volume]
        (snd (magnify_st [RealArr level0_volume, RealArr level1_volume, RealArr level2_volume]
                sample_up [Array 0, Array 1, Array 2] 2 30 3 0 1 10))
   \<and> fst (magnify_st [RealArr level0_volume, RealArr level1_volume, RealArr level2_volume]
             sample_up [Array 0, Array 1, Array 2] 2 30 3 0 1 10)
       = magnify sample_up [level0_volume, level1_volume, level2_volume] 2 30 3 0 1 10"
proof -
  have r: "list_all2 (\<lambda>r v. read_volume [RealArr level0_volume, RealArr level1_volume, RealArr level2_volume] r
                        = Inr v)
     [Array 0, Array 1, Array 2] [level0_volume, level1_volume, level2_volume]"
    by (simp add: read_volume_def)
  show ?thesis
    using r originals_never_modified[OF r, where up = sample_up and n = 2 and fps = 30 and L = 3
        and lo = 0 and hi = 1 and alpha = 10]
    by blast
qed

end
